theory Spec2Isabelle
  imports Main "HOL-Library.Word" "HOL-Library.Char_ord" "HOL-Library.List_Lexorder"
    "HOL-Library.AList"
begin

unbundle bit_operations_syntax

section \<open>Bytes, strings and big-endian integers\<close>

text \<open>
  A Go \<open>string\<close> is a sequence of bytes compared bytewise; it is modelled as an Isabelle
  \<open>string\<close> with the lexicographic order of \<open>Char_ord\<close> and \<open>List_Lexorder\<close>. A
  \<open>[]byte\<close> and the contents of a file are lists of 8-bit words. \<open>bytes_of\<close> is the
  conversion \<open>[]byte(s)\<close>, \<open>string_of\<close> is \<open>string(bs)\<close>.
\<close>

type_synonym byte = "8 word"

definition bytes_of :: "string \<Rightarrow> byte list" where
  "bytes_of s = map (\<lambda>c. of_char c) s"

definition string_of :: "byte list \<Rightarrow> string" where
  "string_of bs = map (\<lambda>b. char_of (unat b)) bs"

text \<open>\<open>uint16(len(s))\<close>: the length of a string truncated to 16 bits.\<close>

definition len16 :: "string \<Rightarrow> 16 word" where
  "len16 s = of_nat (length s)"

text \<open>\<open>binary.Write(buf, binary.BigEndian, x)\<close> for a \<open>uint16\<close> and a \<open>uint32\<close>.\<close>

definition be16 :: "16 word \<Rightarrow> byte list" where
  "be16 w = [ucast (drop_bit 8 w), ucast w]"

definition be32 :: "32 word \<Rightarrow> byte list" where
  "be32 w = [ucast (drop_bit 24 w), ucast (drop_bit 16 w), ucast (drop_bit 8 w), ucast w]"

definition be16_decode :: "byte \<Rightarrow> byte \<Rightarrow> 16 word" where
  "be16_decode a b = push_bit 8 (ucast a) OR ucast b"

definition be32_decode :: "byte \<Rightarrow> byte \<Rightarrow> byte \<Rightarrow> byte \<Rightarrow> 32 word" where
  "be32_decode a b c d =
     push_bit 24 (ucast a) OR push_bit 16 (ucast b) OR push_bit 8 (ucast c) OR ucast d"

section \<open>The memtable (package lsmtree)\<close>

text \<open>
  \<open>MemTable\<close> holds a \<open>sync.Map\<close> from keys to values, the byte counter \<open>size\<close> and
  the cap \<open>maxSize\<close>. The table is an association list with one entry per key, updated by
  \<open>AList.update\<close> (\<open>Store\<close>) and read by \<open>map_of\<close> (\<open>Load\<close>). The two \<open>int64\<close>
  counters are unbounded integers: they count bytes of strings held in memory.
\<close>

definition tombstone :: string where
  "tombstone = ''<TOMBSTONE>''"

datatype lsm_error = ErrKeyNotFound | ErrMemTableFull | ErrSSTableCorrupted | ErrIO | Panic

record MemTable =
  mt_table :: "(string \<times> string) list"
  mt_size :: int
  mt_maxSize :: int

definition NewMemTable :: "int \<Rightarrow> MemTable" where
  "NewMemTable maxSize = \<lparr>mt_table = [], mt_size = 0, mt_maxSize = maxSize\<rparr>"

text \<open>\<open>MemTable.Insert\<close>: \<open>Inl ErrMemTableFull\<close> when the projected size exceeds the cap.\<close>

definition MemTable_Insert :: "string \<Rightarrow> string \<Rightarrow> MemTable \<Rightarrow> lsm_error + MemTable" where
  "MemTable_Insert key val m =
     (let addSize = int (length key + length val);
          currentSize = mt_size m
      in if currentSize + addSize > mt_maxSize m then Inl ErrMemTableFull
         else Inr (m\<lparr>mt_table := AList.update key val (mt_table m),
                     mt_size := mt_size m + addSize\<rparr>))"

text \<open>\<open>MemTable.Get\<close> returns \<open>(value, ok)\<close>; a tombstone reads as a miss.\<close>

definition MemTable_Get :: "MemTable \<Rightarrow> string \<Rightarrow> string \<times> bool" where
  "MemTable_Get m key =
     (case map_of (mt_table m) key of
        None \<Rightarrow> ('''', False)
      | Some val \<Rightarrow> if val = tombstone then ('''', False) else (val, True))"

definition MemTable_Delete :: "string \<Rightarrow> MemTable \<Rightarrow> MemTable" where
  "MemTable_Delete key m = m\<lparr>mt_table := AList.update key tombstone (mt_table m)\<rparr>"

definition MemTable_Size :: "MemTable \<Rightarrow> int" where
  "MemTable_Size m = mt_size m"

text \<open>
  \<open>MemTable.Swap\<close> returns the snapshot map without the tombstoned entries and leaves the
  table empty with size 0.
\<close>

definition MemTable_Swap :: "MemTable \<Rightarrow> (string \<times> string) list \<times> MemTable" where
  "MemTable_Swap m =
     (filter (\<lambda>(key, val). val \<noteq> tombstone) (mt_table m),
      m\<lparr>mt_table := [], mt_size := 0\<rparr>)"

section \<open>Files, readers and the CRC\<close>

text \<open>
  The file system is a map from paths to file contents. Failures of the operating system
  other than a missing file or a read past the end of a file are outside the model. A read
  is made at a position of the file: \<open>read_full file pos n\<close> is \<open>io.ReadFull\<close> into a
  buffer of \<open>n\<close> bytes (\<open>None\<close> when fewer than \<open>n\<close> bytes are left), \<open>read_u16\<close> and
  \<open>read_u32\<close> are \<open>binary.Read\<close> with \<open>binary.BigEndian\<close>.
\<close>

type_synonym fs = "string \<rightharpoonup> byte list"

definition read_full :: "byte list \<Rightarrow> nat \<Rightarrow> nat \<Rightarrow> byte list option" where
  "read_full file pos n =
     (if pos + n \<le> length file then Some (take n (drop pos file)) else None)"

definition read_u16 :: "byte list \<Rightarrow> nat \<Rightarrow> 16 word option" where
  "read_u16 file pos =
     (case read_full file pos 2 of Some [a, b] \<Rightarrow> Some (be16_decode a b) | _ \<Rightarrow> None)"

definition read_u32 :: "byte list \<Rightarrow> nat \<Rightarrow> 32 word option" where
  "read_u32 file pos =
     (case read_full file pos 4 of
        Some [a, b, c, d] \<Rightarrow> Some (be32_decode a b c d)
      | _ \<Rightarrow> None)"

text \<open>
  \<open>hash/crc32\<close> with the IEEE polynomial: the table entry of a byte is eight rounds of
  shift and conditional xor, and \<open>crc32_update\<close> is the update of a running checksum,
  so that \<open>hasher.Write(p)\<close> is \<open>crc32_update h p\<close> and \<open>hasher.Sum32()\<close> is \<open>h\<close>.
\<close>

definition crc32_round :: "32 word \<Rightarrow> 32 word" where
  "crc32_round c = (if bit c 0 then drop_bit 1 c XOR 0xEDB88320 else drop_bit 1 c)"

definition crc32_table :: "byte \<Rightarrow> 32 word" where
  "crc32_table b = (crc32_round ^^ 8) (ucast b)"

definition crc32_update :: "32 word \<Rightarrow> byte list \<Rightarrow> 32 word" where
  "crc32_update crc p =
     NOT (fold (\<lambda>v c. crc32_table (ucast c XOR v) XOR drop_bit 8 c) p (NOT crc))"

definition ChecksumIEEE :: "byte list \<Rightarrow> 32 word" where
  "ChecksumIEEE p = crc32_update 0 p"

section \<open>The write-ahead log\<close>

text \<open>
  \<open>WAL.Append\<close> sends the entry to a channel and \<open>WAL.worker\<close> serialises each entry
  and writes it to the file. The model is the sequential view: the worker has written the
  entry when \<open>Append\<close> returns. \<open>wal_encode\<close> is the buffer the worker writes.
\<close>

record WalEntry =
  we_Op :: byte
  we_Key :: string
  we_Value :: string

definition wal_encode :: "WalEntry \<Rightarrow> byte list" where
  "wal_encode entry =
     [we_Op entry] @ be16 (len16 (we_Key entry)) @ bytes_of (we_Key entry)
       @ be16 (len16 (we_Value entry)) @ bytes_of (we_Value entry)"

definition file_content :: "fs \<Rightarrow> string \<Rightarrow> byte list" where
  "file_content files path = (case files path of None \<Rightarrow> [] | Some bs \<Rightarrow> bs)"

definition WAL_Append :: "string \<Rightarrow> WalEntry \<Rightarrow> fs \<Rightarrow> fs" where
  "WAL_Append walPath entry files =
     files(walPath \<mapsto> file_content files walPath @ wal_encode entry)"

definition WAL_Reset :: "string \<Rightarrow> fs \<Rightarrow> fs" where
  "WAL_Reset walPath files = files(walPath \<mapsto> [])"

text \<open>
  \<open>RecoverFromWAL\<close>: the loop reads one record after the other and stops, without an
  error, at the end of the file or at the first record that is cut short. The result of
  \<open>memTable.Insert\<close> is dropped, as in the source.
\<close>

definition replay_apply :: "byte \<Rightarrow> string \<Rightarrow> string \<Rightarrow> MemTable \<Rightarrow> MemTable" where
  "replay_apply op key val m =
     (if op = 0 then (case MemTable_Insert key val m of Inl err \<Rightarrow> m | Inr m1 \<Rightarrow> m1)
      else if op = 1 then MemTable_Delete key m
      else m)"

function wal_replay :: "byte list \<Rightarrow> nat \<Rightarrow> MemTable \<Rightarrow> MemTable" where
  "wal_replay file pos m =
     (case read_full file pos 1 of
        None \<Rightarrow> m
      | Some opByte \<Rightarrow>
     (case read_u16 file (pos + 1) of
        None \<Rightarrow> m
      | Some keyLen \<Rightarrow>
     (case read_full file (pos + 3) (unat keyLen) of
        None \<Rightarrow> m
      | Some keyBytes \<Rightarrow>
     (case read_u16 file (pos + 3 + unat keyLen) of
        None \<Rightarrow> m
      | Some valLen \<Rightarrow>
     (case read_full file (pos + 5 + unat keyLen) (unat valLen) of
        None \<Rightarrow> m
      | Some valBytes \<Rightarrow>
          (let op = hd opByte; key = string_of keyBytes; val = string_of valBytes
           in wal_replay file (pos + 5 + unat keyLen + unat valLen)
                (replay_apply op key val m)))))))"
  by pat_completeness auto
termination
  by (relation "measure (\<lambda>(file, pos, m). length file - pos)")
     (auto simp: read_full_def split: if_splits)

declare wal_replay.simps [simp del]

definition RecoverFromWAL :: "string \<Rightarrow> MemTable \<Rightarrow> fs \<Rightarrow> lsm_error option \<times> MemTable" where
  "RecoverFromWAL walPath memTable files =
     (case files walPath of
        None \<Rightarrow> (Some ErrIO, memTable)
      | Some file \<Rightarrow>
          if length file = 0 then (None, memTable)
          else (None, wal_replay file 0 memTable))"

section \<open>SSTables\<close>

text \<open>
  The in-memory \<open>SSTable\<close>: path, first and last key, size of the records, the index from
  key to record offset and the checksum. The optional Bloom filter is left out: it is
  filled from the keys and never consulted by \<open>LSMTree.Get\<close>.
\<close>

record SSTable =
  sst_filePath :: string
  sst_minKey :: string
  sst_maxKey :: string
  sst_size :: int
  sst_index :: "string \<rightharpoonup> int"
  sst_checksum :: "32 word"

text \<open>The locals \<open>minKey\<close>, \<open>maxKey\<close>, \<open>offset\<close>, \<open>index\<close> and \<open>hasher\<close> that the loops of
  \<open>CreateSSTable\<close> and \<open>OpenSSTable\<close> update.\<close>

record sst_locals =
  w_minKey :: string
  w_maxKey :: string
  w_offset :: int
  w_index :: "string \<rightharpoonup> int"
  w_hasher :: "32 word"

definition sst_locals0 :: sst_locals where
  "sst_locals0 = \<lparr>w_minKey = '''', w_maxKey = '''', w_offset = 0, w_index = Map.empty, w_hasher = 0\<rparr>"

text \<open>
  The body shared by both loops: with the entry's key and bytes, set \<open>minKey\<close> on the
  first entry, \<open>maxKey\<close> always, record the offset of the key, advance the offset and feed
  the checksum.
\<close>

definition sst_add_entry :: "bool \<Rightarrow> string \<Rightarrow> byte list \<Rightarrow> sst_locals \<Rightarrow> sst_locals" where
  "sst_add_entry first key entryBytes w =
     \<lparr>w_minKey = (if first then key else w_minKey w),
      w_maxKey = key,
      w_offset = w_offset w + int (length entryBytes),
      w_index = (w_index w)(key \<mapsto> w_offset w),
      w_hasher = crc32_update (w_hasher w) entryBytes\<rparr>"

text \<open>One record of an SSTable file: \<open>[KeyLen][Key][ValLen][Value]\<close>.\<close>

definition entry_bytes :: "string \<Rightarrow> string \<Rightarrow> byte list" where
  "entry_bytes key val = be16 (len16 key) @ bytes_of key @ be16 (len16 val) @ bytes_of val"

text \<open>
  A Go map given as an association list: \<open>map_keys\<close> are its keys, each once, and
  \<open>map_get\<close> is \<open>data[key]\<close> (the empty string for a missing key).
\<close>

definition map_keys :: "(string \<times> string) list \<Rightarrow> string list" where
  "map_keys data = remdups (map fst data)"

definition map_get :: "(string \<times> string) list \<Rightarrow> string \<Rightarrow> string" where
  "map_get data key = (case map_of data key of None \<Rightarrow> '''' | Some v \<Rightarrow> v)"

text \<open>
  The loop of \<open>CreateSSTable\<close> over the sorted keys, from iteration \<open>i\<close> on: it carries
  the locals and the bytes written to the file so far.
\<close>

fun write_entries ::
  "(string \<times> string) list \<Rightarrow> nat \<Rightarrow> string list \<Rightarrow> sst_locals \<times> byte list
     \<Rightarrow> sst_locals \<times> byte list" where
  "write_entries data i [] (w, out) = (w, out)"
| "write_entries data i (key # keys) (w, out) =
     (let val = map_get data key;
          entryBytes = entry_bytes key val
      in write_entries data (i + 1) keys
           (sst_add_entry (i = 0) key entryBytes w, out @ entryBytes))"

definition CreateSSTable :: "string \<Rightarrow> (string \<times> string) list \<Rightarrow> fs \<Rightarrow> SSTable \<times> fs" where
  "CreateSSTable path data files =
     (let keys = sort (map_keys data);
          (w, out) = write_entries data 0 keys (sst_locals0, []);
          checksum = w_hasher w
      in (\<lparr>sst_filePath = path, sst_minKey = w_minKey w, sst_maxKey = w_maxKey w,
            sst_size = w_offset w, sst_index = w_index w, sst_checksum = checksum\<rparr>,
          files(path \<mapsto> out @ be32 checksum)))"

text \<open>
  The loop of \<open>OpenSSTable\<close>: \<open>pos\<close> is the position of the file
  (\<open>file.Seek(0, io.SeekCurrent)\<close>), \<open>dataEnd\<close> is the file size minus 4.
\<close>

function scan_entries :: "byte list \<Rightarrow> int \<Rightarrow> nat \<Rightarrow> sst_locals \<Rightarrow> lsm_error + nat \<times> sst_locals"
  where
  "scan_entries file dataEnd pos w =
     (if int pos \<ge> dataEnd then Inr (pos, w)
      else
     (case read_u16 file pos of
        None \<Rightarrow> Inl ErrIO
      | Some keyLen \<Rightarrow>
     (case read_full file (pos + 2) (unat keyLen) of
        None \<Rightarrow> Inl ErrIO
      | Some keyBytes \<Rightarrow>
     (case read_u16 file (pos + 2 + unat keyLen) of
        None \<Rightarrow> Inl ErrIO
      | Some valLen \<Rightarrow>
     (case read_full file (pos + 4 + unat keyLen) (unat valLen) of
        None \<Rightarrow> Inl ErrIO
      | Some valBytes \<Rightarrow>
          (let key = string_of keyBytes;
               entryBytes = be16 keyLen @ keyBytes @ be16 valLen @ valBytes
           in scan_entries file dataEnd (pos + 4 + unat keyLen + unat valLen)
                (sst_add_entry (w_offset w = 0) key entryBytes w)))))))"
  by pat_completeness auto
termination
  by (relation "measure (\<lambda>(file, dataEnd, pos, w). length file - pos)")
     (auto simp: read_full_def read_u16_def split: if_splits)

declare scan_entries.simps [simp del]

definition OpenSSTable :: "string \<Rightarrow> fs \<Rightarrow> lsm_error + SSTable" where
  "OpenSSTable path files =
     (case files path of
        None \<Rightarrow> Inl ErrIO
      | Some file \<Rightarrow>
     (let fileSize = int (length file);
          dataEnd = fileSize - 4
      in case scan_entries file dataEnd 0 sst_locals0 of
           Inl err \<Rightarrow> Inl err
         | Inr (pos, w) \<Rightarrow>
        (case read_u32 file pos of
           None \<Rightarrow> Inl ErrIO
         | Some fileChecksum \<Rightarrow>
             if w_hasher w \<noteq> fileChecksum then Inl ErrSSTableCorrupted
             else Inr \<lparr>sst_filePath = path, sst_minKey = w_minKey w, sst_maxKey = w_maxKey w,
                       sst_size = w_offset w, sst_index = w_index w,
                       sst_checksum = fileChecksum\<rparr>)))"

text \<open>\<open>SSTable.Get\<close>: every failure on the way reads as a miss.\<close>

definition SSTable_Get :: "fs \<Rightarrow> SSTable \<Rightarrow> string \<Rightarrow> string \<times> bool" where
  "SSTable_Get files s key =
     (case sst_index s key of
        None \<Rightarrow> ('''', False)
      | Some pos \<Rightarrow>
     (case files (sst_filePath s) of
        None \<Rightarrow> ('''', False)
      | Some file \<Rightarrow>
          if pos < 0 then ('''', False)
          else
     (case read_u16 file (nat pos) of
        None \<Rightarrow> ('''', False)
      | Some keyLen \<Rightarrow>
     (case read_full file (nat pos + 2) (unat keyLen) of
        None \<Rightarrow> ('''', False)
      | Some keyBytes \<Rightarrow>
     (case read_u16 file (nat pos + 2 + unat keyLen) of
        None \<Rightarrow> ('''', False)
      | Some valLen \<Rightarrow>
     (case read_full file (nat pos + 4 + unat keyLen) (unat valLen) of
        None \<Rightarrow> ('''', False)
      | Some valBytes \<Rightarrow> (string_of valBytes, True)))))))"

section \<open>The block cache\<close>

text \<open>
  \<open>Cache\<close> is an LRU list of entries with a map from each key to its list element; the
  model keeps the list, most recently used first, with one entry per key.
\<close>

record Cache =
  c_capacity :: int
  c_order :: "(string \<times> string) list"

text \<open>Go's integer division truncates towards zero.\<close>

definition go_div :: "int \<Rightarrow> int \<Rightarrow> int" where
  "go_div a b = sgn a * sgn b * (\<bar>a\<bar> div \<bar>b\<bar>)"

definition NewCache :: "int \<Rightarrow> Cache" where
  "NewCache capacity = \<lparr>c_capacity = go_div capacity 64, c_order = []\<rparr>"

definition Cache_Get :: "string \<Rightarrow> Cache \<Rightarrow> (string \<times> bool) \<times> Cache" where
  "Cache_Get key c =
     (case map_of (c_order c) key of
        Some val \<Rightarrow> ((val, True), c\<lparr>c_order := (key, val) # AList.delete key (c_order c)\<rparr>)
      | None \<Rightarrow> (('''', False), c))"

definition Cache_Put :: "string \<Rightarrow> string \<Rightarrow> Cache \<Rightarrow> Cache" where
  "Cache_Put key val c =
     (case map_of (c_order c) key of
        Some old \<Rightarrow> c\<lparr>c_order := (key, val) # AList.delete key (c_order c)\<rparr>
      | None \<Rightarrow>
          (let order = (key, val) # c_order c
           in if int (length order) > c_capacity c then c\<lparr>c_order := butlast order\<rparr>
              else c\<lparr>c_order := order\<rparr>))"

section \<open>The LSM tree\<close>

text \<open>
  The coordinator: the two configuration values the operations read, the active memtable,
  the levels of SSTables, the block cache, and the files of the data directory. The
  write-ahead log is the file \<open>db.wal\<close> of the data directory, as \<open>NewLSMTree\<close> opens it. The metrics counters are left out. Each call of
  \<open>time.Now().UnixNano()\<close> is a parameter \<open>now\<close> of the operation that makes it.
\<close>

record LSMTree =
  l_FilePath :: string
  l_MemTableSize :: int
  l_memTable :: MemTable

  l_levels :: "SSTable list list"
  l_cache :: Cache
  l_files :: fs

definition walPath :: "LSMTree \<Rightarrow> string" where
  "walPath l = l_FilePath l @ ''/db.wal''"

text \<open>\<open>fmt.Sprintf("%d", n)\<close> for a clock reading.\<close>

fun show_nat :: "nat \<Rightarrow> string" where
  "show_nat n =
     (if n < 10 then [char_of (48 + n)] else show_nat (n div 10) @ [char_of (48 + n mod 10)])"

declare show_nat.simps [simp del]

definition show_int :: "int \<Rightarrow> string" where
  "show_int n = (if n < 0 then CHR ''-'' # show_nat (nat (- n)) else show_nat (nat n))"

definition sst_file_name :: "string \<Rightarrow> int \<Rightarrow> string" where
  "sst_file_name dir now = dir @ ''/db.sst.'' @ show_int now @ ''.sst''"

text \<open>
  \<open>sort.Slice\<close> of a level by \<open>minKey\<close>. The order it gives to tables with equal
  \<open>minKey\<close> is not fixed by the source; the model keeps their order.
\<close>

definition sort_by_minKey :: "SSTable list \<Rightarrow> SSTable list" where
  "sort_by_minKey level = sort_key sst_minKey level"

text \<open>\<open>sort.Search(n, f)\<close>: the binary search of the Go library.\<close>

function sort_Search_loop :: "(nat \<Rightarrow> bool) \<Rightarrow> nat \<Rightarrow> nat \<Rightarrow> nat" where
  "sort_Search_loop f i j =
     (if i < j then
        (let h = (i + j) div 2
         in if \<not> f h then sort_Search_loop f (h + 1) j else sort_Search_loop f i h)
      else i)"
  by pat_completeness auto
termination
  by (relation "measure (\<lambda>(f, i, j). j - i)") auto

declare sort_Search_loop.simps [simp del]

definition sort_Search :: "nat \<Rightarrow> (nat \<Rightarrow> bool) \<Rightarrow> nat" where
  "sort_Search n f = sort_Search_loop f 0 n"

text \<open>
  \<open>flushMemTable\<close>. An empty list of levels cannot be indexed: the Go runtime panics,
  which the model returns as \<open>Panic\<close>.
\<close>

definition flushMemTable :: "int \<Rightarrow> LSMTree \<Rightarrow> lsm_error option \<times> LSMTree" where
  "flushMemTable now l =
     (let oldMT = l_memTable l
      in if MemTable_Size oldMT = 0 then (None, l)
         else
           (let (data, swapped) = MemTable_Swap oldMT;
                newMT = NewMemTable (l_MemTableSize l);
                sstPath = sst_file_name (l_FilePath l) now;
                (sst, files') = CreateSSTable sstPath data (l_files l)
            in case l_levels l of
                 [] \<Rightarrow> (Some Panic, l\<lparr>l_memTable := newMT, l_files := files'\<rparr>)
               | level0 # higher \<Rightarrow>
                   (None, l\<lparr>l_memTable := newMT,
                             l_levels := sort_by_minKey (level0 @ [sst]) # higher,
                             l_files := WAL_Reset (walPath l) files'\<rparr>)))"

definition LSMTree_Insert :: "string \<Rightarrow> string \<Rightarrow> int \<Rightarrow> LSMTree \<Rightarrow> lsm_error option \<times> LSMTree"
  where
  "LSMTree_Insert key val now l =
     (let entry = \<lparr>we_Op = 0, we_Key = key, we_Value = val\<rparr>;
          l1 = l\<lparr>l_files := WAL_Append (walPath l) entry (l_files l)\<rparr>
      in case MemTable_Insert key val (l_memTable l1) of
           Inr mt \<Rightarrow> (None, l1\<lparr>l_memTable := mt\<rparr>)
         | Inl err \<Rightarrow>
             if err \<noteq> ErrMemTableFull then (Some err, l1)
             else
               (case flushMemTable now l1 of
                  (Some err2, l2) \<Rightarrow> (Some err2, l2)
                | (None, l2) \<Rightarrow>
                    (case MemTable_Insert key val (l_memTable l2) of
                       Inl err3 \<Rightarrow> (Some err3, l2)
                     | Inr mt \<Rightarrow> (None, l2\<lparr>l_memTable := mt\<rparr>))))"

text \<open>
  The loop of \<open>LSMTree.Get\<close> over the levels: in each level one table is chosen by
  \<open>sort.Search\<close> on \<open>maxKey\<close> and probed when its \<open>minKey\<close> is not above the key.
\<close>

fun search_levels :: "fs \<Rightarrow> SSTable list list \<Rightarrow> string \<Rightarrow> string option" where
  "search_levels files [] key = None"
| "search_levels files (level # levels) key =
     (let idx = sort_Search (length level) (\<lambda>i. sst_maxKey (level ! i) \<ge> key)
      in if idx < length level \<and> sst_minKey (level ! idx) \<le> key then
           (case SSTable_Get files (level ! idx) key of
              (val, True) \<Rightarrow> Some val
            | (val, False) \<Rightarrow> search_levels files levels key)
         else search_levels files levels key)"

definition LSMTree_Get :: "string \<Rightarrow> LSMTree \<Rightarrow> (lsm_error + string) \<times> LSMTree" where
  "LSMTree_Get key l =
     (case MemTable_Get (l_memTable l) key of
        (val, True) \<Rightarrow> (Inr val, l)
      | (val, False) \<Rightarrow>
     (case Cache_Get key (l_cache l) of
        ((val, True), cache') \<Rightarrow> (Inr val, l\<lparr>l_cache := cache'\<rparr>)
      | ((val, False), cache') \<Rightarrow>
     (case search_levels (l_files l) (l_levels l) key of
        Some val \<Rightarrow> (Inr val, l\<lparr>l_cache := Cache_Put key val cache'\<rparr>)
      | None \<Rightarrow> (Inl ErrKeyNotFound, l\<lparr>l_cache := cache'\<rparr>))))"

definition LSMTree_Delete :: "string \<Rightarrow> LSMTree \<Rightarrow> lsm_error option \<times> LSMTree" where
  "LSMTree_Delete key l =
     (let entry = \<lparr>we_Op = 1, we_Key = key, we_Value = ''''\<rparr>;
          l1 = l\<lparr>l_files := WAL_Append (walPath l) entry (l_files l)\<rparr>
      in (None, l1\<lparr>l_memTable := MemTable_Delete key (l_memTable l1)\<rparr>))"

section \<open>Compaction\<close>

text \<open>
  \<open>mergeSSTables\<close> creates the output file, copies every input file without its last
  4 bytes, appends the checksum of what it copied and opens the result.
\<close>

fun copy_bodies :: "string \<Rightarrow> SSTable list \<Rightarrow> fs \<Rightarrow> lsm_error option \<times> fs" where
  "copy_bodies newPath [] files = (None, files)"
| "copy_bodies newPath (sst # ssts) files =
     (case files (sst_filePath sst) of
        None \<Rightarrow> (Some ErrIO, files)
      | Some f \<Rightarrow>
          (let dataSize = int (length f) - 4;
               copied = take (nat dataSize) f
           in copy_bodies newPath ssts
                (files(newPath \<mapsto> file_content files newPath @ copied))))"

definition mergeSSTables :: "SSTable list \<Rightarrow> string \<Rightarrow> int \<Rightarrow> fs \<Rightarrow> (lsm_error + SSTable) \<times> fs"
  where
  "mergeSSTables ssts dir now files =
     (let newPath = sst_file_name dir now
      in case copy_bodies newPath ssts (files(newPath \<mapsto> [])) of
           (Some err, files1) \<Rightarrow> (Inl err, files1)
         | (None, files1) \<Rightarrow>
             (let data = file_content files1 newPath;
                  checksum = ChecksumIEEE data;
                  files2 = files1(newPath \<mapsto> data @ be32 checksum)
              in (OpenSSTable newPath files2, files2)))"

text \<open>\<open>Compactor.Compact\<close>, with its threshold of 4 tables in level 0.\<close>

definition Compact :: "int \<Rightarrow> LSMTree \<Rightarrow> lsm_error option \<times> LSMTree" where
  "Compact now l =
     (case l_levels l of
        [] \<Rightarrow> (Some Panic, l)
      | level0 # higher \<Rightarrow>
          if length level0 < 4 then (None, l)
          else
            (case mergeSSTables level0 (l_FilePath l) now (l_files l) of
               (Inl err, files') \<Rightarrow> (Some err, l\<lparr>l_files := files'\<rparr>)
             | (Inr merged, files') \<Rightarrow>
                 (case higher of
                    [] \<Rightarrow>
                      (None, l\<lparr>l_levels := [[], sort_by_minKey [merged]], l_files := files'\<rparr>)
                  | level1 # rest \<Rightarrow>
                      (None, l\<lparr>l_levels := [] # sort_by_minKey (level1 @ [merged]) # rest,
                                l_files := files'\<rparr>))))"

text \<open>\<open>LSMTree.ForceCompaction\<close>: flush a memtable of positive size, then compact.\<close>

definition ForceCompaction :: "int \<Rightarrow> int \<Rightarrow> LSMTree \<Rightarrow> lsm_error option \<times> LSMTree" where
  "ForceCompaction now1 now2 l =
     (if MemTable_Size (l_memTable l) > 0 then
        (case flushMemTable now1 l of
           (Some err, l1) \<Rightarrow> (Some err, l1)
         | (None, l1) \<Rightarrow> Compact now2 l1)
      else Compact now2 l)"

text \<open>
  The state that \<open>NewLSMTree\<close> builds on an empty data directory: one empty level, an
  empty memtable and cache, and the empty log file that \<open>NewWAL\<close> creates.
\<close>

definition NewLSMTree_empty :: "string \<Rightarrow> int \<Rightarrow> int \<Rightarrow> LSMTree" where
  "NewLSMTree_empty dir memTableSize cacheSize =
     \<lparr>l_FilePath = dir, l_MemTableSize = memTableSize,
      l_memTable = NewMemTable memTableSize, l_levels = [[]],
      l_cache = NewCache cacheSize, l_files = [dir @ ''/db.wal'' \<mapsto> []]\<rparr>"

section \<open>The paged B-tree (package btree)\<close>

text \<open>
  A \<open>*Node\<close> is an address of the store \<open>bt_heap\<close>, so that a node reached through the
  cache and through a local variable is one object. The cache maps page offsets to node
  addresses; \<open>bt_cacheList\<close> is the LRU list, most recently used first, of the nodes
  that own a list element, and \<open>nd_elem\<close> tells whether a node owns one. The file is a
  byte list, read and written a page at a time. \<open>Degree\<close>, \<open>Length\<close>, the page size
  and the offsets are unbounded integers; the values written to disk are truncated to their
  field widths as the source does. Values are strings: the check that \<open>Insert\<close> makes of
  the dynamic type of its value always passes.
\<close>

record Item =
  it_Key :: string
  it_Value :: string

record Node =
  nd_items :: "Item list"
  nd_childrenOffsets :: "int list"
  nd_offset :: int
  nd_elem :: bool

datatype bt_error =
    ErrKeyNotFoundPort | ErrKeyNotFoundText | ErrNodeTooLarge | ErrRead | ErrWrite
  | BtPanic | OutOfFuel

record Btree =
  bt_Degree :: int
  bt_Length :: int
  bt_RootOffset :: int
  bt_file :: "byte list"
  bt_pageSize :: int
  bt_nextOffset :: int
  bt_cache :: "int \<rightharpoonup> nat"
  bt_cacheList :: "nat list"
  bt_cacheSize :: int
  bt_heap :: "nat \<rightharpoonup> Node"
  bt_nextAddr :: nat

text \<open>
  An operation takes the tree and returns an error or a value together with the tree as
  the operation left it: what it changed before an error stays changed.
\<close>

type_synonym 'a bt_op = "Btree \<Rightarrow> (bt_error + 'a) \<times> Btree"

definition bt_return :: "'a \<Rightarrow> 'a bt_op" where
  "bt_return x b = (Inr x, b)"

definition bt_fail :: "bt_error \<Rightarrow> 'a bt_op" where
  "bt_fail e b = (Inl e, b)"

definition bt_bind :: "'a bt_op \<Rightarrow> ('a \<Rightarrow> 'b bt_op) \<Rightarrow> 'b bt_op" where
  "bt_bind m f b = (case m b of (Inl e, b') \<Rightarrow> (Inl e, b') | (Inr x, b') \<Rightarrow> f x b')"

definition bt_get :: "(Btree \<Rightarrow> 'a) \<Rightarrow> 'a bt_op" where
  "bt_get g b = (Inr (g b), b)"

definition bt_modify :: "(Btree \<Rightarrow> Btree) \<Rightarrow> unit bt_op" where
  "bt_modify g b = (Inr (), g b)"

text \<open>The store of nodes: allocation, dereference (a nil dereference panics), update.\<close>

definition new_node :: "Node \<Rightarrow> nat bt_op" where
  "new_node n b =
     (Inr (bt_nextAddr b),
      b\<lparr>bt_heap := (bt_heap b)(bt_nextAddr b \<mapsto> n), bt_nextAddr := bt_nextAddr b + 1\<rparr>)"

definition node_at :: "nat \<Rightarrow> Node bt_op" where
  "node_at a b = (case bt_heap b a of None \<Rightarrow> (Inl BtPanic, b) | Some n \<Rightarrow> (Inr n, b))"

definition update_node :: "nat \<Rightarrow> (Node \<Rightarrow> Node) \<Rightarrow> unit bt_op" where
  "update_node a g b =
     (case bt_heap b a of
        None \<Rightarrow> (Inl BtPanic, b)
      | Some n \<Rightarrow> (Inr (), b\<lparr>bt_heap := (bt_heap b)(a \<mapsto> g n)\<rparr>))"

text \<open>Indexing and slicing panic out of range (the capacity of a slice is not modelled).\<close>

definition index_at :: "'a list \<Rightarrow> int \<Rightarrow> 'a bt_op" where
  "index_at xs i = (if 0 \<le> i \<and> i < int (length xs) then bt_return (xs ! nat i) else bt_fail BtPanic)"

definition slice_from :: "'a list \<Rightarrow> int \<Rightarrow> 'a list bt_op" where
  "slice_from xs i =
     (if 0 \<le> i \<and> i \<le> int (length xs) then bt_return (drop (nat i) xs) else bt_fail BtPanic)"

definition slice_to :: "'a list \<Rightarrow> int \<Rightarrow> 'a list bt_op" where
  "slice_to xs i =
     (if 0 \<le> i \<and> i \<le> int (length xs) then bt_return (take (nat i) xs) else bt_fail BtPanic)"

subsection \<open>Pages\<close>

text \<open>Little-endian fields, \<open>ReadAt\<close> and \<open>WriteAt\<close> on the file.\<close>

definition le16 :: "16 word \<Rightarrow> byte list" where
  "le16 w = [ucast w, ucast (drop_bit 8 w)]"

definition le32 :: "32 word \<Rightarrow> byte list" where
  "le32 w = [ucast w, ucast (drop_bit 8 w), ucast (drop_bit 16 w), ucast (drop_bit 24 w)]"

definition le64 :: "64 word \<Rightarrow> byte list" where
  "le64 w = [ucast w, ucast (drop_bit 8 w), ucast (drop_bit 16 w), ucast (drop_bit 24 w),
             ucast (drop_bit 32 w), ucast (drop_bit 40 w), ucast (drop_bit 48 w),
             ucast (drop_bit 56 w)]"

fun le_decode :: "byte list \<Rightarrow> nat" where
  "le_decode [] = 0"
| "le_decode (x # xs) = unat x + 256 * le_decode xs"

definition read_at :: "byte list \<Rightarrow> int \<Rightarrow> nat \<Rightarrow> byte list option" where
  "read_at f off n =
     (if 0 \<le> off \<and> nat off + n \<le> length f then Some (take n (drop (nat off) f)) else None)"

definition write_at :: "byte list \<Rightarrow> int \<Rightarrow> byte list \<Rightarrow> byte list option" where
  "write_at f off bs =
     (if off < 0 then None
      else
        (let g = f @ replicate (nat off - length f) 0
         in Some (take (nat off) g @ bs @ drop (nat off + length bs) g)))"

text \<open>\<open>copy(padded, data)\<close> into a zeroed page.\<close>

definition pad_page :: "int \<Rightarrow> byte list \<Rightarrow> byte list" where
  "pad_page pageSize data = take (nat pageSize) (data @ replicate (nat pageSize - length data) 0)"

text \<open>The serialisation of a node in \<open>writeNodeToDisk\<close>.\<close>

definition item_bytes :: "Item \<Rightarrow> byte list" where
  "item_bytes item =
     le16 (len16 (it_Key item)) @ bytes_of (it_Key item)
       @ le16 (len16 (it_Value item)) @ bytes_of (it_Value item)"

definition node_bytes :: "Node \<Rightarrow> byte list" where
  "node_bytes n =
     le32 (of_nat (length (nd_items n))) @ le32 (of_nat (length (nd_childrenOffsets n)))
       @ concat (map item_bytes (nd_items n))
       @ concat (map (\<lambda>c. le64 (of_int c)) (nd_childrenOffsets n))"

definition writeNodeToDisk :: "nat \<Rightarrow> int \<Rightarrow> unit bt_op" where
  "writeNodeToDisk n off =
     bt_bind (node_at n) (\<lambda>node.
     bt_bind (bt_get bt_pageSize) (\<lambda>pageSize.
       (let data = node_bytes node
        in if int (length data) > pageSize then bt_fail ErrNodeTooLarge
           else
             bt_bind (bt_get bt_file) (\<lambda>f.
               (case write_at f off (pad_page pageSize data) of
                  None \<Rightarrow> bt_fail ErrWrite
                | Some f' \<Rightarrow>
                    bt_bind (bt_modify (\<lambda>b. b\<lparr>bt_file := f'\<rparr>)) (\<lambda>_.
                    update_node n (\<lambda>node. node\<lparr>nd_offset := off\<rparr>)))))))"

text \<open>
  The reads of \<open>readNodeFromDisk\<close> on the rest of the page: \<open>binary.Read\<close> needs all
  its bytes; \<open>bytes.Reader.Read\<close> fails at the end of the page, also for an empty
  buffer, and otherwise fills what it can of a zeroed buffer.
\<close>

definition take_field :: "nat \<Rightarrow> byte list \<Rightarrow> (nat \<times> byte list) option" where
  "take_field n rest =
     (if n \<le> length rest then Some (le_decode (take n rest), drop n rest) else None)"

definition reader_read :: "nat \<Rightarrow> byte list \<Rightarrow> (byte list \<times> byte list) option" where
  "reader_read n rest =
     (if rest = [] then None
      else Some (take n rest @ replicate (n - length rest) 0, drop n rest))"

fun read_items :: "nat \<Rightarrow> byte list \<Rightarrow> (Item list \<times> byte list) option" where
  "read_items 0 rest = Some ([], rest)"
| "read_items (Suc k) rest =
     (case take_field 2 rest of
        None \<Rightarrow> None
      | Some (keyLen, rest1) \<Rightarrow>
     (case reader_read keyLen rest1 of
        None \<Rightarrow> None
      | Some (keyBytes, rest2) \<Rightarrow>
     (case take_field 2 rest2 of
        None \<Rightarrow> None
      | Some (valueLen, rest3) \<Rightarrow>
     (case reader_read valueLen rest3 of
        None \<Rightarrow> None
      | Some (valueBytes, rest4) \<Rightarrow>
     (case read_items k rest4 of
        None \<Rightarrow> None
      | Some (items, rest5) \<Rightarrow>
          Some (\<lparr>it_Key = string_of keyBytes, it_Value = string_of valueBytes\<rparr> # items,
                rest5))))))"

fun read_children :: "nat \<Rightarrow> byte list \<Rightarrow> int list option" where
  "read_children 0 rest = Some []"
| "read_children (Suc k) rest =
     (case take_field 8 rest of
        None \<Rightarrow> None
      | Some (c, rest1) \<Rightarrow>
     (case read_children k rest1 of
        None \<Rightarrow> None
      | Some cs \<Rightarrow> Some (sint (of_nat c :: 64 word) # cs)))"

definition parse_node :: "byte list \<Rightarrow> int \<Rightarrow> Node option" where
  "parse_node page off =
     (case take_field 4 page of
        None \<Rightarrow> None
      | Some (itemsCount, rest1) \<Rightarrow>
     (case take_field 4 rest1 of
        None \<Rightarrow> None
      | Some (childrenCount, rest2) \<Rightarrow>
     (case read_items itemsCount rest2 of
        None \<Rightarrow> None
      | Some (items, rest3) \<Rightarrow>
     (case read_children childrenCount rest3 of
        None \<Rightarrow> None
      | Some children \<Rightarrow>
          Some \<lparr>nd_items = items, nd_childrenOffsets = children, nd_offset = off,
                nd_elem = False\<rparr>))))"

definition readNodeFromDisk :: "int \<Rightarrow> nat bt_op" where
  "readNodeFromDisk off =
     bt_bind (bt_get (\<lambda>b. read_at (bt_file b) off (nat (bt_pageSize b)))) (\<lambda>page.
       (case page of
          None \<Rightarrow> bt_fail ErrRead
        | Some data \<Rightarrow>
            (case parse_node data off of
               None \<Rightarrow> bt_fail ErrRead
             | Some node \<Rightarrow> new_node node)))"

text \<open>\<open>saveHeader\<close>: root offset and length at the start of page 0.\<close>

definition saveHeader :: "unit bt_op" where
  "saveHeader =
     bt_bind (bt_get (\<lambda>b. b)) (\<lambda>b.
       (let data = le64 (of_int (bt_RootOffset b)) @ le32 (of_int (bt_Length b))
        in case write_at (bt_file b) 0 (pad_page (bt_pageSize b) data) of
             None \<Rightarrow> bt_fail ErrWrite
           | Some f' \<Rightarrow> bt_modify (\<lambda>b. b\<lparr>bt_file := f'\<rparr>)))"

definition allocateNode :: "int bt_op" where
  "allocateNode b = (Inr (bt_nextOffset b), b\<lparr>bt_nextOffset := bt_nextOffset b + bt_pageSize b\<rparr>)"

definition isLeaf :: "Node \<Rightarrow> bool" where
  "isLeaf n = (length (nd_childrenOffsets n) = 0)"

subsection \<open>The node cache\<close>

definition cacheNode :: "nat \<Rightarrow> unit bt_op" where
  "cacheNode n =
     bt_bind (bt_get bt_cacheSize) (\<lambda>cacheSize.
       if cacheSize \<le> 0 then bt_return ()
       else
         bt_bind (node_at n) (\<lambda>node.
         bt_bind (bt_get bt_cache) (\<lambda>cache.
           (case cache (nd_offset node) of
              Some cached \<Rightarrow>
                bt_bind (node_at cached) (\<lambda>cachedNode.
                bt_modify (\<lambda>b.
                  b\<lparr>bt_cacheList :=
                       (if nd_elem cachedNode then cached # remove1 cached (bt_cacheList b)
                        else bt_cacheList b),
                     bt_cache := (bt_cache b)(nd_offset node \<mapsto> n)\<rparr>))
            | None \<Rightarrow>
                bt_bind (bt_modify (\<lambda>b.
                  b\<lparr>bt_cacheList := n # bt_cacheList b,
                     bt_cache := (bt_cache b)(nd_offset node \<mapsto> n)\<rparr>)) (\<lambda>_.
                bt_bind (update_node n (\<lambda>node. node\<lparr>nd_elem := True\<rparr>)) (\<lambda>_.
                bt_bind (bt_get bt_cacheList) (\<lambda>cacheList.
                  if int (length cacheList) > cacheSize then
                    (let oldest = last cacheList
                     in bt_bind (node_at oldest) (\<lambda>oldNode.
                        bt_bind (bt_modify (\<lambda>b.
                          b\<lparr>bt_cache := (bt_cache b)(nd_offset oldNode := None),
                             bt_cacheList := butlast (bt_cacheList b)\<rparr>)) (\<lambda>_.
                        update_node oldest (\<lambda>node. node\<lparr>nd_elem := False\<rparr>))))
                  else bt_return ())))))))"

definition moveToFront :: "int \<Rightarrow> unit bt_op" where
  "moveToFront off =
     bt_bind (bt_get bt_cache) (\<lambda>cache.
       (case cache off of
          None \<Rightarrow> bt_return ()
        | Some a \<Rightarrow>
            bt_bind (node_at a) (\<lambda>node.
              if nd_elem node then
                bt_modify (\<lambda>b. b\<lparr>bt_cacheList := a # remove1 a (bt_cacheList b)\<rparr>)
              else bt_return ())))"

definition readNode :: "int \<Rightarrow> nat bt_op" where
  "readNode off =
     bt_bind (bt_get (\<lambda>b. if bt_cacheSize b > 0 then bt_cache b off else None)) (\<lambda>hit.
       (case hit of
          Some node \<Rightarrow> bt_bind (moveToFront off) (\<lambda>_. bt_return node)
        | None \<Rightarrow>
            bt_bind (readNodeFromDisk off) (\<lambda>node.
            bt_bind (bt_get bt_cacheSize) (\<lambda>cacheSize.
            bt_bind (if cacheSize > 0 then cacheNode node else bt_return ()) (\<lambda>_.
            bt_return node)))))"

definition writeNode :: "nat \<Rightarrow> int \<Rightarrow> unit bt_op" where
  "writeNode n off =
     bt_bind (writeNodeToDisk n off) (\<lambda>_.
     bt_bind (bt_get bt_cacheSize) (\<lambda>cacheSize.
       if cacheSize > 0 then cacheNode n else bt_return ()))"

subsection \<open>Insert\<close>

text \<open>
  The index loops of \<open>insertNonFull\<close>, \<open>searchValue\<close> and \<open>deleteFromNode\<close>.
  \<open>find_slot key items j\<close> runs \<open>for i >= 0 && key < items[i].Key { i-- }\<close> from
  \<open>i = j - 1\<close> and returns \<open>i + 1\<close>; \<open>find_index key items i\<close> runs
  \<open>for i < len(items) && key > items[i].Key { i++ }\<close> from \<open>i\<close>.
\<close>

fun find_slot :: "string \<Rightarrow> Item list \<Rightarrow> nat \<Rightarrow> nat" where
  "find_slot key items 0 = 0"
| "find_slot key items (Suc i) =
     (if key < it_Key (items ! i) then find_slot key items i else Suc i)"

function find_index :: "string \<Rightarrow> Item list \<Rightarrow> nat \<Rightarrow> nat" where
  "find_index key items i =
     (if i < length items \<and> key > it_Key (items ! i) then find_index key items (Suc i) else i)"
  by pat_completeness auto
termination
  by (relation "measure (\<lambda>(key, items, i). length items - i)") auto

declare find_index.simps [simp del]

text \<open>
  \<open>splitChild(parent, index, child)\<close>: the median of the child moves up into the parent,
  the upper half of the child moves to a new node \<open>z\<close>, and the three nodes are written.
\<close>

definition splitChild :: "nat \<Rightarrow> int \<Rightarrow> nat \<Rightarrow> unit bt_op" where
  "splitChild parent idx child =
     bt_bind (bt_get bt_Degree) (\<lambda>t.
     bt_bind (node_at child) (\<lambda>c.
     bt_bind (index_at (nd_items c) (t - 1)) (\<lambda>median.
     bt_bind (slice_from (nd_items c) t) (\<lambda>zItems.
     bt_bind (if \<not> isLeaf c then
                bt_bind (slice_from (nd_childrenOffsets c) t) (\<lambda>zChildren.
                bt_bind (slice_to (nd_childrenOffsets c) t) (\<lambda>cChildren.
                bt_bind (update_node child (\<lambda>c. c\<lparr>nd_childrenOffsets := cChildren\<rparr>)) (\<lambda>_.
                bt_return zChildren)))
              else bt_return []) (\<lambda>zChildren.
     bt_bind (slice_to (nd_items c) (t - 1)) (\<lambda>cItems.
     bt_bind (update_node child (\<lambda>c. c\<lparr>nd_items := cItems\<rparr>)) (\<lambda>_.
     bt_bind allocateNode (\<lambda>zOffset.
     bt_bind (new_node \<lparr>nd_items = zItems, nd_childrenOffsets = zChildren,
                         nd_offset = zOffset, nd_elem = False\<rparr>) (\<lambda>z.
     bt_bind (node_at parent) (\<lambda>p.
     bt_bind (if idx + 1 \<ge> int (length (nd_childrenOffsets p)) then
                bt_return (nd_childrenOffsets p @ [zOffset])
              else
                bt_bind (slice_to (nd_childrenOffsets p) (idx + 1)) (\<lambda>before.
                bt_bind (slice_from (nd_childrenOffsets p) (idx + 1)) (\<lambda>after.
                bt_return (before @ [zOffset] @ after)))) (\<lambda>pChildren.
     bt_bind (slice_to (nd_items p) idx) (\<lambda>itemsBefore.
     bt_bind (slice_from (nd_items p) idx) (\<lambda>itemsAfter.
     bt_bind (update_node parent (\<lambda>p. p\<lparr>nd_childrenOffsets := pChildren,
                                           nd_items := itemsBefore @ [median] @ itemsAfter\<rparr>)) (\<lambda>_.
     bt_bind (node_at child) (\<lambda>c'.
     bt_bind (writeNode child (nd_offset c')) (\<lambda>_.
     bt_bind (writeNode z zOffset) (\<lambda>_.
     bt_bind (node_at parent) (\<lambda>p'.
     writeNode parent (nd_offset p')))))))))))))))))))"

text \<open>
  \<open>insertNonFull\<close>. The recursion follows the child offsets stored in the file, so it
  takes fuel; \<open>OutOfFuel\<close> is not a result of the source.
\<close>

fun insertNonFull :: "nat \<Rightarrow> nat \<Rightarrow> string \<Rightarrow> string \<Rightarrow> unit bt_op" where
  "insertNonFull 0 n key val = bt_fail OutOfFuel"
| "insertNonFull (Suc fuel) n key val =
     bt_bind (node_at n) (\<lambda>node.
       if isLeaf node then
         (let items = nd_items node;
              slot = find_slot key items (length items)
          in bt_bind (update_node n (\<lambda>node. node\<lparr>nd_items :=
                        take slot items @ [\<lparr>it_Key = key, it_Value = val\<rparr>] @ drop slot items\<rparr>))
               (\<lambda>_. writeNode n (nd_offset node)))
       else
         (let i = int (find_slot key (nd_items node) (length (nd_items node)))
          in bt_bind (index_at (nd_childrenOffsets node) i) (\<lambda>childOffset.
             bt_bind (readNode childOffset) (\<lambda>child.
             bt_bind (node_at child) (\<lambda>c.
             bt_bind (bt_get bt_Degree) (\<lambda>t.
               if int (length (nd_items c)) = 2 * t - 1 then
                 bt_bind (splitChild n i child) (\<lambda>_.
                 bt_bind (node_at n) (\<lambda>node'.
                 bt_bind (index_at (nd_items node') i) (\<lambda>sep.
                   (let i' = (if key > it_Key sep then i + 1 else i)
                    in bt_bind (index_at (nd_childrenOffsets node') i') (\<lambda>childOffset'.
                       bt_bind (readNode childOffset') (\<lambda>child'.
                       insertNonFull fuel child' key val))))))
               else insertNonFull fuel child key val))))))"

definition Insert :: "nat \<Rightarrow> string \<Rightarrow> string \<Rightarrow> unit bt_op" where
  "Insert fuel key val =
     bt_bind (bt_get bt_Length) (\<lambda>len.
       if len = 0 then
         bt_bind (new_node \<lparr>nd_items = [\<lparr>it_Key = key, it_Value = val\<rparr>],
                             nd_childrenOffsets = [], nd_offset = 0, nd_elem = False\<rparr>) (\<lambda>newNode.
         bt_bind allocateNode (\<lambda>off.
         bt_bind (update_node newNode (\<lambda>n. n\<lparr>nd_offset := off\<rparr>)) (\<lambda>_.
         bt_bind (writeNode newNode off) (\<lambda>_.
         bt_bind (bt_modify (\<lambda>b. b\<lparr>bt_RootOffset := off, bt_Length := bt_Length b + 1\<rparr>)) (\<lambda>_.
         bt_bind saveHeader (\<lambda>_.
         cacheNode newNode))))))
       else
         bt_bind (bt_get bt_RootOffset) (\<lambda>rootOffset.
         bt_bind (readNode rootOffset) (\<lambda>root.
         bt_bind (node_at root) (\<lambda>r.
         bt_bind (bt_get bt_Degree) (\<lambda>t.
         bt_bind
           (if int (length (nd_items r)) = 2 * t - 1 then
              bt_bind (new_node \<lparr>nd_items = [], nd_childrenOffsets = [nd_offset r],
                                  nd_offset = 0, nd_elem = False\<rparr>) (\<lambda>newRoot.
              bt_bind allocateNode (\<lambda>newRootOffset.
              bt_bind (update_node newRoot (\<lambda>n. n\<lparr>nd_offset := newRootOffset\<rparr>)) (\<lambda>_.
              bt_bind (splitChild newRoot 0 root) (\<lambda>_.
              bt_bind (insertNonFull fuel newRoot key val) (\<lambda>_.
              bt_bind (writeNode newRoot newRootOffset) (\<lambda>_.
              bt_bind (bt_modify (\<lambda>b. b\<lparr>bt_RootOffset := newRootOffset\<rparr>)) (\<lambda>_.
              cacheNode newRoot)))))))
            else insertNonFull fuel root key val) (\<lambda>_.
         bt_bind (bt_modify (\<lambda>b. b\<lparr>bt_Length := bt_Length b + 1\<rparr>)) (\<lambda>_.
         saveHeader)))))))"

subsection \<open>Get\<close>

fun searchValue :: "nat \<Rightarrow> int \<Rightarrow> string \<Rightarrow> string bt_op" where
  "searchValue 0 off key = bt_fail OutOfFuel"
| "searchValue (Suc fuel) off key =
     bt_bind (readNode off) (\<lambda>n.
     bt_bind (node_at n) (\<lambda>node.
       (let i = find_index key (nd_items node) 0
        in if i < length (nd_items node) \<and> key = it_Key (nd_items node ! i) then
             bt_return (it_Value (nd_items node ! i))
           else if isLeaf node then bt_fail ErrKeyNotFoundText
           else
             bt_bind (index_at (nd_childrenOffsets node) (int i)) (\<lambda>childOffset.
             searchValue fuel childOffset key))))"

definition Get :: "nat \<Rightarrow> string \<Rightarrow> string bt_op" where
  "Get fuel key =
     bt_bind (bt_get bt_Length) (\<lambda>len.
       if len = 0 then bt_fail ErrKeyNotFoundPort
       else bt_bind (bt_get bt_RootOffset) (\<lambda>rootOffset. searchValue fuel rootOffset key))"

subsection \<open>Delete\<close>

text \<open>
  \<open>bt_catch\<close> is a call whose returned error the caller tests instead of returning it
  (a panic is not a returned error).
\<close>

definition bt_catch :: "'a bt_op \<Rightarrow> 'a option bt_op" where
  "bt_catch m b =
     (case m b of
        (Inl e, b') \<Rightarrow> if e = BtPanic \<or> e = OutOfFuel then (Inl e, b') else (Inr None, b')
      | (Inr x, b') \<Rightarrow> (Inr (Some x), b'))"

fun getPredecessor :: "nat \<Rightarrow> nat \<Rightarrow> Item bt_op" where
  "getPredecessor 0 n = bt_fail OutOfFuel"
| "getPredecessor (Suc fuel) n =
     bt_bind (node_at n) (\<lambda>node.
       if \<not> isLeaf node then
         bt_bind (index_at (nd_childrenOffsets node)
                    (int (length (nd_childrenOffsets node)) - 1)) (\<lambda>lastChildOffset.
         bt_bind (readNode lastChildOffset) (\<lambda>n'. getPredecessor fuel n'))
       else index_at (nd_items node) (int (length (nd_items node)) - 1))"

fun getSuccessor :: "nat \<Rightarrow> nat \<Rightarrow> Item bt_op" where
  "getSuccessor 0 n = bt_fail OutOfFuel"
| "getSuccessor (Suc fuel) n =
     bt_bind (node_at n) (\<lambda>node.
       if \<not> isLeaf node then
         bt_bind (index_at (nd_childrenOffsets node) 0) (\<lambda>firstChildOffset.
         bt_bind (readNode firstChildOffset) (\<lambda>n'. getSuccessor fuel n'))
       else index_at (nd_items node) 0)"

definition mergeNodes :: "nat \<Rightarrow> int \<Rightarrow> unit bt_op" where
  "mergeNodes parent idx =
     bt_bind (node_at parent) (\<lambda>p.
     bt_bind (index_at (nd_childrenOffsets p) idx) (\<lambda>leftOffset.
     bt_bind (index_at (nd_childrenOffsets p) (idx + 1)) (\<lambda>rightOffset.
     bt_bind (readNode leftOffset) (\<lambda>left.
     bt_bind (readNode rightOffset) (\<lambda>right.
     bt_bind (node_at parent) (\<lambda>p.
     bt_bind (node_at left) (\<lambda>l.
     bt_bind (node_at right) (\<lambda>r.
     bt_bind (index_at (nd_items p) idx) (\<lambda>sep.
     bt_bind (update_node left (\<lambda>l. l\<lparr>nd_items := nd_items l @ [sep] @ nd_items r,
         nd_childrenOffsets := (if \<not> isLeaf l then nd_childrenOffsets l @ nd_childrenOffsets r
                                else nd_childrenOffsets l)\<rparr>)) (\<lambda>_.
     bt_bind (node_at parent) (\<lambda>p.
     bt_bind (slice_to (nd_items p) idx) (\<lambda>itemsBefore.
     bt_bind (slice_from (nd_items p) (idx + 1)) (\<lambda>itemsAfter.
     bt_bind (slice_to (nd_childrenOffsets p) (idx + 1)) (\<lambda>childrenBefore.
     bt_bind (slice_from (nd_childrenOffsets p) (idx + 2)) (\<lambda>childrenAfter.
     bt_bind (update_node parent (\<lambda>p. p\<lparr>nd_items := itemsBefore @ itemsAfter,
         nd_childrenOffsets := childrenBefore @ childrenAfter\<rparr>)) (\<lambda>_.
     bt_bind (node_at left) (\<lambda>l'.
     bt_bind (writeNode left (nd_offset l')) (\<lambda>_.
     bt_bind (node_at parent) (\<lambda>p'.
     writeNode parent (nd_offset p'))))))))))))))))))))"

definition borrowFromPrev :: "nat \<Rightarrow> int \<Rightarrow> unit bt_op" where
  "borrowFromPrev parent idx =
     bt_bind (node_at parent) (\<lambda>p.
     bt_bind (index_at (nd_childrenOffsets p) idx) (\<lambda>childOffset.
     bt_bind (readNode childOffset) (\<lambda>child.
     bt_bind (node_at parent) (\<lambda>p.
     bt_bind (index_at (nd_childrenOffsets p) (idx - 1)) (\<lambda>leftOffset.
     bt_bind (readNode leftOffset) (\<lambda>leftSibling.
     bt_bind (node_at parent) (\<lambda>p.
     bt_bind (index_at (nd_items p) (idx - 1)) (\<lambda>sep.
     bt_bind (update_node child (\<lambda>c. c\<lparr>nd_items := sep # nd_items c\<rparr>)) (\<lambda>_.
     bt_bind (node_at child) (\<lambda>c.
     bt_bind (if \<not> isLeaf c then
                bt_bind (node_at leftSibling) (\<lambda>ls.
                bt_bind (index_at (nd_childrenOffsets ls)
                           (int (length (nd_childrenOffsets ls)) - 1)) (\<lambda>moved.
                bt_bind (update_node child
                           (\<lambda>c. c\<lparr>nd_childrenOffsets := moved # nd_childrenOffsets c\<rparr>)) (\<lambda>_.
                update_node leftSibling
                  (\<lambda>ls. ls\<lparr>nd_childrenOffsets := butlast (nd_childrenOffsets ls)\<rparr>))))
              else bt_return ()) (\<lambda>_.
     bt_bind (node_at leftSibling) (\<lambda>ls.
     bt_bind (index_at (nd_items ls) (int (length (nd_items ls)) - 1)) (\<lambda>up.
     bt_bind (node_at parent) (\<lambda>p.
     bt_bind (if 0 \<le> idx - 1 \<and> idx - 1 < int (length (nd_items p)) then
                update_node parent (\<lambda>p. p\<lparr>nd_items := (nd_items p)[nat (idx - 1) := up]\<rparr>)
              else bt_fail BtPanic) (\<lambda>_.
     bt_bind (update_node leftSibling (\<lambda>ls. ls\<lparr>nd_items := butlast (nd_items ls)\<rparr>)) (\<lambda>_.
     bt_bind (node_at child) (\<lambda>c'.
     bt_bind (writeNode child (nd_offset c')) (\<lambda>_.
     bt_bind (node_at leftSibling) (\<lambda>ls'.
     bt_bind (writeNode leftSibling (nd_offset ls')) (\<lambda>_.
     bt_bind (node_at parent) (\<lambda>p'.
     writeNode parent (nd_offset p'))))))))))))))))))))))"

definition borrowFromNext :: "nat \<Rightarrow> int \<Rightarrow> unit bt_op" where
  "borrowFromNext parent idx =
     bt_bind (node_at parent) (\<lambda>p.
     bt_bind (index_at (nd_childrenOffsets p) idx) (\<lambda>childOffset.
     bt_bind (readNode childOffset) (\<lambda>child.
     bt_bind (node_at parent) (\<lambda>p.
     bt_bind (index_at (nd_childrenOffsets p) (idx + 1)) (\<lambda>rightOffset.
     bt_bind (readNode rightOffset) (\<lambda>rightSibling.
     bt_bind (node_at parent) (\<lambda>p.
     bt_bind (index_at (nd_items p) idx) (\<lambda>sep.
     bt_bind (update_node child (\<lambda>c. c\<lparr>nd_items := nd_items c @ [sep]\<rparr>)) (\<lambda>_.
     bt_bind (node_at child) (\<lambda>c.
     bt_bind (if \<not> isLeaf c then
                bt_bind (node_at rightSibling) (\<lambda>rs.
                bt_bind (index_at (nd_childrenOffsets rs) 0) (\<lambda>moved.
                bt_bind (update_node child
                           (\<lambda>c. c\<lparr>nd_childrenOffsets := nd_childrenOffsets c @ [moved]\<rparr>)) (\<lambda>_.
                update_node rightSibling
                  (\<lambda>rs. rs\<lparr>nd_childrenOffsets := tl (nd_childrenOffsets rs)\<rparr>))))
              else bt_return ()) (\<lambda>_.
     bt_bind (node_at rightSibling) (\<lambda>rs.
     bt_bind (index_at (nd_items rs) 0) (\<lambda>up.
     bt_bind (node_at parent) (\<lambda>p.
     bt_bind (if 0 \<le> idx \<and> idx < int (length (nd_items p)) then
                update_node parent (\<lambda>p. p\<lparr>nd_items := (nd_items p)[nat idx := up]\<rparr>)
              else bt_fail BtPanic) (\<lambda>_.
     bt_bind (update_node rightSibling (\<lambda>rs. rs\<lparr>nd_items := tl (nd_items rs)\<rparr>)) (\<lambda>_.
     bt_bind (node_at child) (\<lambda>c'.
     bt_bind (writeNode child (nd_offset c')) (\<lambda>_.
     bt_bind (node_at rightSibling) (\<lambda>rs'.
     bt_bind (writeNode rightSibling (nd_offset rs')) (\<lambda>_.
     bt_bind (node_at parent) (\<lambda>p'.
     writeNode parent (nd_offset p'))))))))))))))))))))))"

text \<open>
  \<open>fill(parent, idx)\<close>: borrow from a sibling that can spare an item, else merge with
  the left sibling, or with the right one for the first child.
\<close>

definition has_spare :: "int \<Rightarrow> nat option \<Rightarrow> bool bt_op" where
  "has_spare t sibling =
     (case sibling of
        None \<Rightarrow> bt_return False
      | Some s \<Rightarrow> bt_bind (node_at s) (\<lambda>sn. bt_return (int (length (nd_items sn)) \<ge> t)))"

definition fill :: "nat \<Rightarrow> int \<Rightarrow> unit bt_op" where
  "fill parent idx =
     bt_bind (bt_get bt_Degree) (\<lambda>t.
     bt_bind (node_at parent) (\<lambda>p.
     bt_bind (index_at (nd_childrenOffsets p) idx) (\<lambda>childOffset.
     bt_bind (readNode childOffset) (\<lambda>_.
     bt_bind (if idx > 0 then
                bt_bind (node_at parent) (\<lambda>p.
                bt_bind (index_at (nd_childrenOffsets p) (idx - 1)) (\<lambda>leftOffset.
                bt_bind (bt_catch (readNode leftOffset)) (has_spare t)))
              else bt_return False) (\<lambda>fromPrev.
       if fromPrev then borrowFromPrev parent idx
       else
         bt_bind (node_at parent) (\<lambda>p.
         bt_bind (if idx < int (length (nd_childrenOffsets p)) - 1 then
                    bt_bind (index_at (nd_childrenOffsets p) (idx + 1)) (\<lambda>rightOffset.
                    bt_bind (bt_catch (readNode rightOffset)) (has_spare t))
                  else bt_return False) (\<lambda>fromNext.
           if fromNext then borrowFromNext parent idx
           else if idx > 0 then mergeNodes parent (idx - 1)
           else mergeNodes parent idx)))))))"

fun deleteFromNode :: "nat \<Rightarrow> int \<Rightarrow> string \<Rightarrow> unit bt_op" where
  "deleteFromNode 0 off key = bt_fail OutOfFuel"
| "deleteFromNode (Suc fuel) off key =
     bt_bind (readNode off) (\<lambda>n.
     bt_bind (node_at n) (\<lambda>node.
     bt_bind (bt_get bt_Degree) (\<lambda>t.
       (let idx = find_index key (nd_items node) 0
        in if idx < length (nd_items node) \<and> key = it_Key (nd_items node ! idx) then
             (if isLeaf node then
                bt_bind (update_node n (\<lambda>node. node\<lparr>nd_items :=
                           take idx (nd_items node) @ drop (idx + 1) (nd_items node)\<rparr>)) (\<lambda>_.
                writeNode n off)
              else
                bt_bind (index_at (nd_childrenOffsets node) (int idx)) (\<lambda>leftOffset.
                bt_bind (index_at (nd_childrenOffsets node) (int idx + 1)) (\<lambda>rightOffset.
                bt_bind (readNode leftOffset) (\<lambda>leftChild.
                bt_bind (node_at leftChild) (\<lambda>lc.
                  if int (length (nd_items lc)) \<ge> t then
                    bt_bind (getPredecessor fuel leftChild) (\<lambda>pred.
                    bt_bind (update_node n
                               (\<lambda>node. node\<lparr>nd_items := (nd_items node)[idx := pred]\<rparr>)) (\<lambda>_.
                    bt_bind (node_at n) (\<lambda>node'.
                    bt_bind (writeNode n (nd_offset node')) (\<lambda>_.
                    deleteFromNode fuel leftOffset (it_Key pred)))))
                  else
                    bt_bind (readNode rightOffset) (\<lambda>rightChild.
                    bt_bind (node_at rightChild) (\<lambda>rc.
                      if int (length (nd_items rc)) \<ge> t then
                        bt_bind (getSuccessor fuel rightChild) (\<lambda>succ.
                        bt_bind (update_node n
                                   (\<lambda>node. node\<lparr>nd_items := (nd_items node)[idx := succ]\<rparr>)) (\<lambda>_.
                        bt_bind (node_at n) (\<lambda>node'.
                        bt_bind (writeNode n (nd_offset node')) (\<lambda>_.
                        deleteFromNode fuel rightOffset (it_Key succ)))))
                      else
                        bt_bind (mergeNodes n (int idx)) (\<lambda>_.
                        deleteFromNode fuel leftOffset key))))))))
           else if isLeaf node then bt_fail ErrKeyNotFoundText
           else
             bt_bind (index_at (nd_childrenOffsets node) (int idx)) (\<lambda>childOffset.
             bt_bind (readNode childOffset) (\<lambda>child.
             bt_bind (node_at child) (\<lambda>c.
               if int (length (nd_items c)) < t then
                 bt_bind (fill n (int idx)) (\<lambda>_.
                 bt_bind (node_at n) (\<lambda>node'.
                 bt_bind (readNode (nd_offset node')) (\<lambda>n'.
                 bt_bind (node_at n') (\<lambda>node''.
                 bt_bind (index_at (nd_childrenOffsets node'') (int idx)) (\<lambda>childOffset'.
                 deleteFromNode fuel childOffset' key)))))
               else deleteFromNode fuel childOffset key)))))))"

definition Delete :: "nat \<Rightarrow> string \<Rightarrow> unit bt_op" where
  "Delete fuel key =
     bt_bind (bt_get bt_Length) (\<lambda>len.
       if len = 0 then bt_fail ErrKeyNotFoundPort
       else
         bt_bind (bt_get bt_RootOffset) (\<lambda>rootOffset.
         bt_bind (deleteFromNode fuel rootOffset key) (\<lambda>_.
         bt_bind (readNode rootOffset) (\<lambda>root.
         bt_bind (node_at root) (\<lambda>r.
         bt_bind (if length (nd_items r) = 0 \<and> \<not> isLeaf r then
                    bt_bind (index_at (nd_childrenOffsets r) 0) (\<lambda>c.
                    bt_bind (bt_modify (\<lambda>b. b\<lparr>bt_RootOffset := c\<rparr>)) (\<lambda>_.
                    cacheNode root))
                  else bt_return ()) (\<lambda>_.
         bt_bind (bt_modify (\<lambda>b. b\<lparr>bt_Length := bt_Length b - 1\<rparr>)) (\<lambda>_.
         saveHeader)))))))"

text \<open>
  \<open>NewBtree\<close> on a new, empty file: \<open>loadHeader\<close> reads a page of zeros past the end
  of the file and succeeds, so no header is written yet.
\<close>

definition NewBtree_empty :: "int \<Rightarrow> int \<Rightarrow> int \<Rightarrow> Btree" where
  "NewBtree_empty degree pageSize cacheSize =
     (let degree' = (if degree \<le> 0 then 32 else degree);
          pageSize' = (if pageSize \<le> 0 then 4096 else pageSize);
          cacheSize' = (if cacheSize < 0 then 0 else cacheSize)
      in \<lparr>bt_Degree = degree', bt_Length = 0, bt_RootOffset = 0, bt_file = [],
           bt_pageSize = pageSize', bt_nextOffset = pageSize', bt_cache = Map.empty,
           bt_cacheList = [], bt_cacheSize = cacheSize', bt_heap = Map.empty,
           bt_nextAddr = 0\<rparr>)"

section \<open>Records, states and examples\<close>

text \<open>
  The vocabulary of the statements that follow: files seen as lists of records, the
  states to which a statement applies, and the concrete trees on which the statements are
  evaluated.
\<close>

subsection \<open>Log-structured merge tree\<close>

text \<open>
  The bytes of a list of records, the bound of the 16-bit length fields, and the locals
  of the two loops after a list of records.
\<close>

definition records_bytes :: "(string \<times> string) list \<Rightarrow> byte list" where
  "records_bytes recs = concat (map (\<lambda>(k, v). entry_bytes k v) recs)"

definition short_records :: "(string \<times> string) list \<Rightarrow> bool" where
  "short_records recs = list_all (\<lambda>(k, v). length k < 65536 \<and> length v < 65536) recs"

primrec add_entries :: "bool \<Rightarrow> (string \<times> string) list \<Rightarrow> sst_locals \<Rightarrow> sst_locals" where
  "add_entries first [] w = w"
| "add_entries first (r # recs) w =
     add_entries False recs (sst_add_entry first (fst r) (entry_bytes (fst r) (snd r)) w)"

text \<open>An example tree: two inserts and the delete of the second key, not yet flushed.\<close>

definition ex_tree :: LSMTree where
  "ex_tree = snd (LSMTree_Delete ''b'' (snd (LSMTree_Insert ''b'' ''2'' 0
               (snd (LSMTree_Insert ''a'' ''1'' 0 (NewLSMTree_empty ''d'' 1024 6400))))))"

text \<open>The same tree before the delete: two live keys in its memtable.\<close>

definition ex_two :: LSMTree where
  "ex_two = snd (LSMTree_Insert ''b'' ''2'' 0
              (snd (LSMTree_Insert ''a'' ''1'' 0 (NewLSMTree_empty ''d'' 1024 6400))))"

text \<open>
  The entries of a log whose lengths fit their 16-bit fields, and the memtable after the
  entries of a log are applied in order.
\<close>

definition short_entries :: "WalEntry list \<Rightarrow> bool" where
  "short_entries entries =
     list_all (\<lambda>e. length (we_Key e) < 65536 \<and> length (we_Value e) < 65536) entries"

definition apply_entries :: "WalEntry list \<Rightarrow> MemTable \<Rightarrow> MemTable" where
  "apply_entries entries m =
     foldl (\<lambda>m e. replay_apply (we_Op e) (we_Key e) (we_Value e) m) m entries"

text \<open>An example log: the insert of a key and its delete.\<close>

definition ex_log :: "WalEntry list" where
  "ex_log = [\<lparr>we_Op = 0, we_Key = ''a'', we_Value = ''1''\<rparr>,
             \<lparr>we_Op = 1, we_Key = ''a'', we_Value = ''''\<rparr>]"

text \<open>
  \<open>rec_offsets off recs\<close> is the index that either loop builds over the records
  \<open>recs\<close> starting at offset \<open>off\<close>: a later record of a key replaces an earlier one.
\<close>

primrec rec_offsets :: "int \<Rightarrow> (string \<times> string) list \<Rightarrow> (string \<rightharpoonup> int)" where
  "rec_offsets off [] = Map.empty"
| "rec_offsets off (r # recs) =
     [fst r \<mapsto> off] ++ rec_offsets (off + int (length (entry_bytes (fst r) (snd r)))) recs"

text \<open>
  \<open>sst_holds files sst recs\<close>: the file of \<open>sst\<close> is the records \<open>recs\<close> followed by
  the 4 bytes of a checksum. \<open>sst_of_records path recs\<close> is the table that
  \<open>OpenSSTable\<close> builds from a file with the records \<open>recs\<close>.
\<close>

definition sst_holds :: "fs \<Rightarrow> SSTable \<Rightarrow> (string \<times> string) list \<Rightarrow> bool" where
  "sst_holds files sst recs =
     (case files (sst_filePath sst) of
        None \<Rightarrow> False
      | Some f \<Rightarrow> length f = length (records_bytes recs) + 4
                 \<and> take (length (records_bytes recs)) f = records_bytes recs)"

definition sst_of_records :: "string \<Rightarrow> (string \<times> string) list \<Rightarrow> SSTable" where
  "sst_of_records path recs =
     \<lparr>sst_filePath = path,
      sst_minKey = (if recs = [] then '''' else fst (hd recs)),
      sst_maxKey = (if recs = [] then '''' else fst (last recs)),
      sst_size = int (length (records_bytes recs)),
      sst_index = rec_offsets 0 recs,
      sst_checksum = ChecksumIEEE (records_bytes recs)\<rparr>"

text \<open>
  Four flushes on a fresh tree: \<open>b, c\<close>, then \<open>a, c\<close> (a newer value of \<open>c\<close>), then
  \<open>x\<close>, then \<open>y\<close>. Level 0 is sorted by min key, so the newer table of \<open>a, c\<close> comes
  first.
\<close>

definition ex_flushed1 :: LSMTree where
  "ex_flushed1 = snd (flushMemTable 1 (snd (LSMTree_Insert ''c'' ''old'' 0
     (snd (LSMTree_Insert ''b'' ''1'' 0 (NewLSMTree_empty ''d'' 1024 6400))))))"

definition ex_flushed2 :: LSMTree where
  "ex_flushed2 = snd (flushMemTable 2 (snd (LSMTree_Insert ''c'' ''new'' 0
     (snd (LSMTree_Insert ''a'' ''2'' 0 ex_flushed1)))))"

definition ex_flushed3 :: LSMTree where
  "ex_flushed3 = snd (flushMemTable 3 (snd (LSMTree_Insert ''x'' ''3'' 0 ex_flushed2)))"

definition ex_unmerged :: LSMTree where
  "ex_unmerged = snd (flushMemTable 4 (snd (LSMTree_Insert ''y'' ''4'' 0 ex_flushed3)))"

definition ex_records :: "(string \<times> string) list list" where
  "ex_records = [[(''a'', ''2''), (''c'', ''new'')], [(''b'', ''1''), (''c'', ''old'')],
                 [(''x'', ''3'')], [(''y'', ''4'')]]"

subsection \<open>B-tree\<close>

text \<open>A full root of degree 2, a value too long for a page of 64 bytes, and a tree with
  a node cache.\<close>

definition bt_full :: Btree where
  "bt_full = snd (Insert 10 ''c'' ''3'' (snd (Insert 10 ''b'' ''2''
               (snd (Insert 10 ''a'' ''1'' (NewBtree_empty 2 64 0))))))"

definition long_value :: string where
  "long_value = replicate 60 CHR ''x''"

definition bt_cached :: Btree where
  "bt_cached = snd (Insert 10 ''a'' ''1'' (NewBtree_empty 2 64 2))"

text \<open>
  A tree of two levels: after the inserts of \<open>a\<close> to \<open>d\<close> with degree 2 the root holds
  \<open>b\<close> and the leaves hold \<open>a\<close> and \<open>c, d\<close>; after the insert of \<open>e\<close> the second
  leaf holds \<open>c, d, e\<close>.
\<close>

definition bt_four :: Btree where
  "bt_four = snd (Insert 10 ''d'' ''4'' bt_full)"

definition bt_two :: Btree where
  "bt_two = snd (Insert 10 ''e'' ''5'' bt_four)"

definition ex_leaf :: "Item list" where
  "ex_leaf = [\<lparr>it_Key = ''c'', it_Value = ''3''\<rparr>, \<lparr>it_Key = ''d'', it_Value = ''4''\<rparr>,
              \<lparr>it_Key = ''e'', it_Value = ''5''\<rparr>]"

text \<open>
  Items whose lengths fit their 16-bit fields, a leaf with given items, and the keys of
  the items of a node, in order.
\<close>

definition short_items :: "Item list \<Rightarrow> bool" where
  "short_items items =
     list_all (\<lambda>it. length (it_Key it) < 65536 \<and> length (it_Value it) < 65536) items"

definition leaf :: "Item list \<Rightarrow> Node" where
  "leaf items = \<lparr>nd_items = items, nd_childrenOffsets = [], nd_offset = 0, nd_elem = False\<rparr>"

definition keys_of :: "Item list \<Rightarrow> string list" where
  "keys_of items = map it_Key items"

text \<open>
  \<open>node_page f pageSize off\<close> is the node that \<open>readNodeFromDisk\<close> reads at \<open>off\<close> in
  the file \<open>f\<close>, if the read and the parse succeed.
\<close>

definition node_page :: "byte list \<Rightarrow> int \<Rightarrow> int \<Rightarrow> Node option" where
  "node_page f pageSize off =
     (case read_at f off (nat pageSize) of
        None \<Rightarrow> None
      | Some page \<Rightarrow> parse_node page off)"

text \<open>
  \<open>search_path f pageSize t m d off key items\<close>: in the file \<open>f\<close> the search for
  \<open>key\<close> from the page at \<open>off\<close> goes \<open>d\<close> levels down and ends in a leaf with the
  items \<open>items\<close>, and a delete that follows it rebalances nothing. Every page on the way
  is at a multiple of the page size above the header page and is read back by
  \<open>readNodeFromDisk\<close>. A node above the leaf has children and items, the index loop
  of \<open>searchValue\<close> and \<open>deleteFromNode\<close> stops in it at an index \<open>i\<close> where \<open>key\<close>
  is not, and it has a child \<open>i\<close>; that child holds at least \<open>t\<close> items when it is
  again above the leaf and at least \<open>m\<close> items when it is the leaf, so that
  \<open>deleteFromNode\<close>, which calls \<open>fill\<close> for a child of fewer than \<open>Degree\<close> items,
  does not call it. The leaf has no children and its serialisation is at most a page.
  \<open>path_leaf\<close> is the offset of that leaf.
\<close>

fun search_path ::
  "byte list \<Rightarrow> int \<Rightarrow> int \<Rightarrow> int \<Rightarrow> nat \<Rightarrow> int \<Rightarrow> string \<Rightarrow> Item list \<Rightarrow> bool" where
  "search_path f pageSize t m 0 off key items =
     (pageSize \<le> off \<and> pageSize dvd off
      \<and> (case node_page f pageSize off of
            None \<Rightarrow> False
          | Some n \<Rightarrow>
              nd_childrenOffsets n = [] \<and> nd_items n = items
              \<and> int (length (node_bytes n)) \<le> pageSize))"
| "search_path f pageSize t m (Suc d) off key items =
     (pageSize \<le> off \<and> pageSize dvd off
      \<and> (case node_page f pageSize off of
            None \<Rightarrow> False
          | Some n \<Rightarrow>
              nd_childrenOffsets n \<noteq> [] \<and> nd_items n \<noteq> []
              \<and> (let i = find_index key (nd_items n) 0
                 in \<not> (i < length (nd_items n) \<and> key = it_Key (nd_items n ! i))
                    \<and> i < length (nd_childrenOffsets n)
                    \<and> (case node_page f pageSize (nd_childrenOffsets n ! i) of
                          None \<Rightarrow> False
                        | Some c \<Rightarrow> (if d = 0 then m else t) \<le> int (length (nd_items c)))
                    \<and> search_path f pageSize t m d (nd_childrenOffsets n ! i) key items)))"

declare search_path.simps [simp del]

fun path_leaf :: "byte list \<Rightarrow> int \<Rightarrow> nat \<Rightarrow> int \<Rightarrow> string \<Rightarrow> int" where
  "path_leaf f pageSize 0 off key = off"
| "path_leaf f pageSize (Suc d) off key =
     (case node_page f pageSize off of
        None \<Rightarrow> off
      | Some n \<Rightarrow>
          path_leaf f pageSize d (nd_childrenOffsets n ! find_index key (nd_items n) 0) key)"

text \<open>
  \<open>root_cache\<close> is what the node cache holds of a root that is a leaf: nothing is asked
  when the cache is disabled; when it is enabled, either the root has no entry and the LRU
  list is empty, or the entry of the root is a node with the items of the leaf and no
  children. \<open>tree_cache\<close> asks this of a tree that is one leaf, and asks of a tree of
  more levels that the cache is disabled. \<open>same_config\<close> relates two states that differ
  at most in the file, the store of nodes and the cache.
\<close>

definition root_cache :: "Btree \<Rightarrow> Item list \<Rightarrow> bool" where
  "root_cache b items =
     (if bt_cacheSize b \<le> 0 then True
      else
        (case bt_cache b (bt_RootOffset b) of
           None \<Rightarrow> bt_cacheList b = []
         | Some a \<Rightarrow>
             (case bt_heap b a of
                None \<Rightarrow> False
              | Some n \<Rightarrow> nd_items n = items \<and> nd_childrenOffsets n = [])))"

definition tree_cache :: "Btree \<Rightarrow> nat \<Rightarrow> Item list \<Rightarrow> bool" where
  "tree_cache b d items = (if d = 0 then root_cache b items else bt_cacheSize b \<le> 0)"

definition same_config :: "Btree \<Rightarrow> Btree \<Rightarrow> bool" where
  "same_config b b' \<longleftrightarrow>
     bt_pageSize b' = bt_pageSize b \<and> bt_Degree b' = bt_Degree b
     \<and> bt_cacheSize b' = bt_cacheSize b \<and> bt_Length b' = bt_Length b
     \<and> bt_RootOffset b' = bt_RootOffset b"

section \<open>Encoding lemmas\<close>

lemma char_of_unat_of_char: "char_of (unat (of_char c :: byte)) = c"
proof -
  have "(of_char c :: byte) = of_nat (of_char c)" by (simp add: of_nat_of_char)
  then have "unat (of_char c :: byte) = (of_char c :: nat) mod 256"
    by (simp add: unat_of_nat)
  then show ?thesis by simp
qed

lemma string_of_bytes_of [simp]: "string_of (bytes_of s) = s"
  by (induction s) (simp_all add: bytes_of_def string_of_def char_of_unat_of_char)

lemma length_bytes_of [simp]: "length (bytes_of s) = length s"
  by (simp add: bytes_of_def)

lemma be16_decode_be16: "be16_decode (ucast (drop_bit 8 w)) (ucast w) = w"
  unfolding be16_decode_def
  by (rule bit_word_eqI) (auto simp: bit_simps)

lemma be32_decode_be32:
  "be32_decode (ucast (drop_bit 24 w)) (ucast (drop_bit 16 w)) (ucast (drop_bit 8 w)) (ucast w) = w"
  unfolding be32_decode_def
proof (rule bit_word_eqI)
  fix n assume n: "n < LENGTH(32)"
  consider "n < 8" | "8 \<le> n" "n < 16" | "16 \<le> n" "n < 24" | "24 \<le> n" by linarith
  then show "bit (push_bit 24 (ucast (ucast (drop_bit 24 w) :: byte)) OR
           push_bit 16 (ucast (ucast (drop_bit 16 w) :: byte)) OR
           push_bit 8 (ucast (ucast (drop_bit 8 w) :: byte)) OR ucast (ucast w :: byte) :: 32 word) n
         = bit w n"
    using n by cases (auto simp: bit_simps)
qed

lemma unat_len16: "length s < 65536 \<Longrightarrow> unat (len16 s) = length s"
  by (simp add: len16_def unat_of_nat)

lemma length_be16 [simp]: "length (be16 w) = 2"
  by (simp add: be16_def)

lemma length_be32 [simp]: "length (be32 w) = 4"
  by (simp add: be32_def)

lemma read_full_at: "read_full (pre @ bs @ suf) (length pre) (length bs) = Some bs"
  by (simp add: read_full_def)

lemma read_u16_at: "read_u16 (pre @ be16 w @ suf) (length pre) = Some w"
  by (simp add: read_u16_def read_full_def be16_def be16_decode_be16)

lemma read_u32_at: "read_u32 (pre @ be32 w @ suf) (length pre) = Some w"
  by (simp add: read_u32_def read_full_def be32_def be32_decode_be32)

lemma crc32_update_append: "crc32_update (crc32_update c a) b = crc32_update c (a @ b)"
  by (simp add: crc32_update_def)

lemma show_int_1: "show_int 1 = ''1''"
  by code_simp

text \<open>The definitions that evaluate the operations of the LSM tree on concrete inputs.\<close>

lemmas lsm_eval =
  LSMTree_Insert_def NewLSMTree_empty_def NewMemTable_def NewCache_def go_div_def
  WAL_Append_def walPath_def file_content_def wal_encode_def MemTable_Insert_def
  be16_def len16_def bytes_of_def Let_def
  CreateSSTable_def map_keys_def map_get_def sst_locals0_def sst_add_entry_def
  entry_bytes_def flushMemTable_def MemTable_Size_def MemTable_Swap_def sst_file_name_def
  sort_by_minKey_def WAL_Reset_def tombstone_def LSMTree_Get_def LSMTree_Delete_def
  MemTable_Get_def MemTable_Delete_def Cache_Get_def Cache_Put_def SSTable_Get_def
  sort_Search_def sort_Search_loop.simps read_u16_def read_full_def string_of_def char_of_def
  be16_decode_def bit_0

section \<open>SSTable files as lists of records\<close>

lemma records_bytes_Nil [simp]: "records_bytes [] = []"
  by (simp add: records_bytes_def)

lemma records_bytes_Cons [simp]: "records_bytes ((k, v) # recs) = entry_bytes k v @ records_bytes recs"
  by (simp add: records_bytes_def)

lemma records_bytes_append [simp]: "records_bytes (a @ b) = records_bytes a @ records_bytes b"
  by (simp add: records_bytes_def)

lemma length_entry_bytes [simp]: "length (entry_bytes k v) = 4 + length k + length v"
  by (simp add: entry_bytes_def)

lemma write_entries_eq:
  "write_entries data i keys (w, out) =
     (add_entries (i = 0) (map (\<lambda>k. (k, map_get data k)) keys) w,
      out @ records_bytes (map (\<lambda>k. (k, map_get data k)) keys))"
  by (induction keys arbitrary: i w out) (simp_all add: Let_def)

lemma read_entry:
  assumes "length k < 65536" "length v < 65536"
  shows "read_u16 (pre @ entry_bytes k v @ rest) (length pre) = Some (len16 k)"
    and "read_full (pre @ entry_bytes k v @ rest) (length pre + 2) (length k) = Some (bytes_of k)"
    and "read_u16 (pre @ entry_bytes k v @ rest) (length pre + 2 + length k) = Some (len16 v)"
    and "read_full (pre @ entry_bytes k v @ rest) (length pre + 4 + length k) (length v) = Some (bytes_of v)"
proof -
  show "read_u16 (pre @ entry_bytes k v @ rest) (length pre) = Some (len16 k)"
    using read_u16_at [of pre "len16 k" "bytes_of k @ be16 (len16 v) @ bytes_of v @ rest"]
    by (simp add: entry_bytes_def)
  show "read_full (pre @ entry_bytes k v @ rest) (length pre + 2) (length k) = Some (bytes_of k)"
    using read_full_at [of "pre @ be16 (len16 k)" "bytes_of k" "be16 (len16 v) @ bytes_of v @ rest"]
    by (simp add: entry_bytes_def)
  show "read_u16 (pre @ entry_bytes k v @ rest) (length pre + 2 + length k) = Some (len16 v)"
    using read_u16_at [of "pre @ be16 (len16 k) @ bytes_of k" "len16 v" "bytes_of v @ rest"]
    by (simp add: entry_bytes_def)
  have len: "length (pre @ be16 (len16 k) @ bytes_of k @ be16 (len16 v)) = length pre + 4 + length k"
    by simp
  have "read_full ((pre @ be16 (len16 k) @ bytes_of k @ be16 (len16 v)) @ bytes_of v @ rest)
          (length pre + 4 + length k) (length (bytes_of v)) = Some (bytes_of v)"
    using read_full_at [of "pre @ be16 (len16 k) @ bytes_of k @ be16 (len16 v)" "bytes_of v" rest]
    unfolding len .
  then show "read_full (pre @ entry_bytes k v @ rest) (length pre + 4 + length k) (length v) = Some (bytes_of v)"
    by (simp add: entry_bytes_def)
qed

lemma sst_add_entry_offset: "w_offset (sst_add_entry f k bs w) = w_offset w + int (length bs)"
  by (simp add: sst_add_entry_def)

lemma scan_entries_records:
  assumes "short_records recs" "0 \<le> w_offset w"
  shows "scan_entries (pre @ records_bytes recs @ suf)
           (int (length pre + length (records_bytes recs))) (length pre) w
         = Inr (length pre + length (records_bytes recs), add_entries (w_offset w = 0) recs w)"
  using assms
proof (induction recs arbitrary: pre w)
  case Nil
  then show ?case by (simp add: scan_entries.simps)
next
  case (Cons r recs)
  obtain k v where r: "r = (k, v)" by (cases r)
  from Cons.prems r have kv: "length k < 65536" "length v < 65536" and sh: "short_records recs"
    by (simp_all add: short_records_def)
  let ?w' = "sst_add_entry (w_offset w = 0) k (entry_bytes k v) w"
  have off: "0 \<le> w_offset ?w'" "w_offset ?w' \<noteq> 0"
    using Cons.prems(2) by (simp_all add: sst_add_entry_offset)
  have IH: "scan_entries ((pre @ entry_bytes k v) @ records_bytes recs @ suf)
           (int (length (pre @ entry_bytes k v) + length (records_bytes recs)))
           (length (pre @ entry_bytes k v)) ?w'
         = Inr (length (pre @ entry_bytes k v) + length (records_bytes recs),
                add_entries (w_offset ?w' = 0) recs ?w')"
    by (rule Cons.IH [OF sh off(1)])
  have re: "be16 (len16 k) @ bytes_of k @ be16 (len16 v) @ bytes_of v = entry_bytes k v"
    by (simp add: entry_bytes_def)
  show ?case
    apply (subst scan_entries.simps)
    using read_entry [OF kv, of pre "records_bytes recs @ suf"] IH off
    apply (simp add: r unat_len16 kv Let_def re add.assoc)
    done
qed


lemma short_records_of_data:
  assumes "short_records data"
  shows "short_records (map (\<lambda>k. (k, map_get data k)) (sort (map_keys data)))"
proof -
  have "length k < 65536 \<and> length (map_get data k) < 65536" if "k \<in> set (map_keys data)" for k
  proof -
    from that obtain v where "map_of data k = Some v"
      by (auto simp: map_keys_def dest: weak_map_of_SomeI)
    then have "(k, v) \<in> set data" "map_get data k = v"
      by (auto simp: map_get_def dest: map_of_SomeD)
    with assms show ?thesis
      by (auto simp: short_records_def list_all_iff)
  qed
  then show ?thesis
    by (auto simp: short_records_def list_all_iff)
qed

lemma read_u16_in_replicate:
  assumes "2 \<le> pos" "pos \<le> n"
  shows "read_u16 (a # b # replicate n x @ rest) pos = Some (be16_decode x x)"
proof -
  obtain p where p: "pos = p + 2" using assms(1) by (metis add.commute le_Suc_ex)
  have "take 2 (drop p (replicate n x @ rest)) = [x, x]"
  proof -
    have "drop p (replicate n x @ rest) = replicate (n - p) x @ rest"
      using assms p by simp
    moreover have "n - p = Suc (Suc (n - p - 2))" using assms p by simp
    ultimately show ?thesis
      by (metis append_Cons replicate_Suc take0 take_Suc_Cons numeral_2_eq_2)
  qed
  then show ?thesis using assms p by (simp add: read_u16_def read_full_def)
qed

lemma len16_long: "len16 (replicate 65536 c) = 0"
  by (simp add: len16_def)

lemma be16_decode_aa: "be16_decode 97 97 = 24929"
  by (simp add: be16_decode_def)

lemma len16_Nil: "len16 [] = 0"
  by (simp add: len16_def)

lemma be16_0: "be16 0 = [0, 0]"
  by (simp add: be16_def)

lemma create_long:
  "CreateSSTable ''p'' [(replicate 65536 CHR ''a'', [])] Map.empty =
     (\<lparr>sst_filePath = ''p'', sst_minKey = replicate 65536 CHR ''a'',
       sst_maxKey = replicate 65536 CHR ''a'',
       sst_size = 65540, sst_index = [replicate 65536 CHR ''a'' \<mapsto> 0],
       sst_checksum = crc32_update 0 (0 # 0 # replicate 65536 97 @ [0, 0])\<rparr>,
      [''p'' \<mapsto> 0 # 0 # replicate 65536 97 @ 0 # 0 # be32 (crc32_update 0 (0 # 0 # replicate 65536 97 @ [0, 0]))])"
  by (simp add: CreateSSTable_def map_keys_def map_get_def Let_def sst_add_entry_def
        sst_locals0_def entry_bytes_def len16_long len16_Nil be16_0 bytes_of_def)

lemma scan_long:
  "scan_entries (0 # 0 # replicate 65536 97 @ 0 # 0 # be32 c) 65540 0 sst_locals0 = Inl ErrIO"
proof -
  let ?F = "0 # 0 # replicate 65536 (97::byte) @ 0 # 0 # be32 c"
  have lenF: "length ?F = 65544" by simp
  have r0: "read_u16 ?F 0 = Some 0"
    by (simp add: read_u16_def read_full_def be16_decode_def)
  have r1: "read_full ?F 2 0 = Some []"
    by (simp add: read_full_def)
  have r2: "read_u16 ?F 2 = Some 24929"
    unfolding be16_decode_aa [symmetric] by (rule read_u16_in_replicate) simp_all
  have r3: "\<exists>vb. read_full ?F 4 24929 = Some vb \<and> length vb = 24929"
    by (simp add: read_full_def)
  have r4: "read_u16 ?F 24933 = Some 24929"
    unfolding be16_decode_aa [symmetric] by (rule read_u16_in_replicate) simp_all
  have r5: "\<exists>kb. read_full ?F 24935 24929 = Some kb"
    by (simp add: read_full_def)
  have r6: "read_u16 ?F 49864 = Some 24929"
    unfolding be16_decode_aa [symmetric] by (rule read_u16_in_replicate) simp_all
  have r7: "read_full ?F 49866 24929 = None"
    by (simp add: read_full_def)
  from r3 obtain vb where vb: "read_full ?F 4 24929 = Some vb" "length vb = 24929" by blast
  from r5 obtain kb where kb: "read_full ?F 24935 24929 = Some kb" by blast
  show ?thesis
    apply (subst scan_entries.simps)
    apply (simp add: r0 r1 r2 vb Let_def del: add_2_eq_Suc add_2_eq_Suc')
    apply (subst scan_entries.simps)
    apply (simp add: r4 r6 r7 kb Let_def del: add_2_eq_Suc add_2_eq_Suc')
    done
qed

section \<open>Writing and opening an SSTable\<close>

text \<open>
  Claim C8, amended. For every finite key-value map whose keys and values are shorter
  than 65536 bytes, creating an SSTable file from it and then opening that file succeeds
  (the CRC check passes) and yields the SSTable that creation returned: the same path,
  min key, max key, size, key-to-offset index and checksum.
\<close>

theorem create_then_open:
  assumes "short_records data"
  shows "OpenSSTable path (snd (CreateSSTable path data files))
           = Inr (fst (CreateSSTable path data files))"
proof -
  let ?recs = "map (\<lambda>k. (k, map_get data k)) (sort (map_keys data))"
  let ?w = "add_entries True ?recs sst_locals0"
  let ?body = "records_bytes ?recs"
  have sh: "short_records ?recs" by (rule short_records_of_data [OF assms])
  have create: "CreateSSTable path data files =
      (\<lparr>sst_filePath = path, sst_minKey = w_minKey ?w, sst_maxKey = w_maxKey ?w,
        sst_size = w_offset ?w, sst_index = w_index ?w, sst_checksum = w_hasher ?w\<rparr>,
       files(path \<mapsto> ?body @ be32 (w_hasher ?w)))"
    by (simp add: CreateSSTable_def write_entries_eq Let_def)
  have scan: "scan_entries (?body @ be32 (w_hasher ?w)) (int (length ?body)) 0 sst_locals0
        = Inr (length ?body, ?w)"
    using scan_entries_records [OF sh, of sst_locals0 "[]" "be32 (w_hasher ?w)"]
    by (simp add: sst_locals0_def)
  have rd: "read_u32 (?body @ be32 (w_hasher ?w)) (length ?body) = Some (w_hasher ?w)"
    using read_u32_at [of ?body "w_hasher ?w" "[]"] by simp
  show ?thesis
    by (simp add: create OpenSSTable_def Let_def scan rd)
qed

theorem create_then_open_witness:
  "short_records [(''b'', ''2''), (''a'', ''1'')]
   \<and> OpenSSTable ''p'' (snd (CreateSSTable ''p'' [(''b'', ''2''), (''a'', ''1'')] Map.empty))
       = Inr (fst (CreateSSTable ''p'' [(''b'', ''2''), (''a'', ''1'')] Map.empty))
   \<and> sst_minKey (fst (CreateSSTable ''p'' [(''b'', ''2''), (''a'', ''1'')] Map.empty)) = ''a''
   \<and> sst_maxKey (fst (CreateSSTable ''p'' [(''b'', ''2''), (''a'', ''1'')] Map.empty)) = ''b''
   \<and> sst_index (fst (CreateSSTable ''p'' [(''b'', ''2''), (''a'', ''1'')] Map.empty)) ''b''
       = Some 6"
  using create_then_open [of "[(''b'', ''2''), (''a'', ''1'')]" "''p''" Map.empty]
  by (simp add: short_records_def lsm_eval)

text \<open>
  Claim C8 as stated fails for a key of 65536 bytes: its length field is written as 0,
  and opening the file reads the records at the wrong places and runs past the end.
\<close>

theorem open_long_key:
  "OpenSSTable ''p'' (snd (CreateSSTable ''p'' [(replicate 65536 CHR ''a'', '''')] Map.empty))
     \<noteq> Inr (fst (CreateSSTable ''p'' [(replicate 65536 CHR ''a'', '''')] Map.empty))"
  by (simp add: create_long OpenSSTable_def Let_def scan_long)

section \<open>Flushing the memtable\<close>

lemma sst_wal_distinct: "sst_file_name dir now \<noteq> dir @ ''/db.wal''"
  by (simp add: sst_file_name_def)

lemma add_entries_index_dom:
  "dom (w_index (add_entries f recs w)) = dom (w_index w) \<union> fst ` set recs"
  by (induction recs arbitrary: f w) (auto simp: sst_add_entry_def)

lemma add_entries_hasher:
  "w_hasher (add_entries f recs w) = crc32_update (w_hasher w) (records_bytes recs)"
  by (induction recs arbitrary: f w)
     (auto simp: sst_add_entry_def crc32_update_append crc32_update_def records_bytes_def)

lemma CreateSSTable_eq:
  "CreateSSTable path data files =
     (let recs = map (\<lambda>k. (k, map_get data k)) (sort (map_keys data));
          w = add_entries True recs sst_locals0
      in (\<lparr>sst_filePath = path, sst_minKey = w_minKey w, sst_maxKey = w_maxKey w,
            sst_size = w_offset w, sst_index = w_index w, sst_checksum = w_hasher w\<rparr>,
          files(path \<mapsto> records_bytes recs @ be32 (w_hasher w))))"
  by (simp add: CreateSSTable_def write_entries_eq Let_def)

lemma swap_snapshot:
  "(k, v) \<in> set (fst (MemTable_Swap m)) \<Longrightarrow> v \<noteq> tombstone \<and> (k, v) \<in> set (mt_table m)"
  by (auto simp: MemTable_Swap_def)

lemma map_of_filter_snd:
  "map_of (filter (\<lambda>(k, v). P v) xs) k = Some v \<Longrightarrow> P v"
  by (induction xs) (auto split: if_splits)

lemma map_of_filter_distinct:
  "distinct (map fst xs) \<Longrightarrow> map_of (filter (\<lambda>(k, v). P v) xs) k = Some v \<Longrightarrow> map_of xs k = Some v"
  by (induction xs) (auto split: if_splits dest!: map_of_SomeD simp: image_iff)

text \<open>
  Claim C10. Every SSTable produced by a memtable flush contains no tombstone records:
  \<open>MemTable.Swap\<close> filters out every entry whose value is the tombstone before
  \<open>CreateSSTable\<close> runs, so a delete that has only reached the memtable is not persisted
  by the flush. For a memtable of positive size (one entry per key) the flush succeeds and
  adds to level 0 a table at the new path whose file is the records of a list \<open>recs\<close>
  followed by their checksum, whose index has exactly the keys of \<open>recs\<close>, and every
  record of \<open>recs\<close> is a live memtable entry, none a tombstone.
\<close>

theorem flush_has_no_tombstones:
  assumes "MemTable_Size (l_memTable l) \<noteq> 0"
      and "l_levels l \<noteq> []"
      and "distinct (map fst (mt_table (l_memTable l)))"
  shows "fst (flushMemTable now l) = None
         \<and> (\<exists>sst recs. sst \<in> set (hd (l_levels (snd (flushMemTable now l))))
           \<and> sst_filePath sst = sst_file_name (l_FilePath l) now
           \<and> l_files (snd (flushMemTable now l)) (sst_filePath sst)
                = Some (records_bytes recs @ be32 (ChecksumIEEE (records_bytes recs)))
           \<and> dom (sst_index sst) = fst ` set recs
           \<and> (\<forall>(k, v) \<in> set recs.
                 v \<noteq> tombstone \<and> map_of (mt_table (l_memTable l)) k = Some v))"
proof -
  define l' where "l' = snd (flushMemTable now l)"
  let ?data = "fst (MemTable_Swap (l_memTable l))"
  let ?recs = "map (\<lambda>k. (k, map_get ?data k)) (sort (map_keys ?data))"
  let ?path = "sst_file_name (l_FilePath l) now"
  let ?w = "add_entries True ?recs sst_locals0"
  let ?sst = "fst (CreateSSTable ?path ?data (l_files l))"
  obtain level0 higher where lv: "l_levels l = level0 # higher"
    using assms(2) by (cases "l_levels l") auto
  have fl0: "flushMemTable now l = (None, l\<lparr>l_memTable := NewMemTable (l_MemTableSize l),
                   l_levels := sort_by_minKey (level0 @ [?sst]) # higher,
                   l_files := WAL_Reset (walPath l) (snd (CreateSSTable ?path ?data (l_files l)))\<rparr>)"
    using assms(1) lv by (auto simp: flushMemTable_def Let_def split: prod.splits)
  have l': "l' = l\<lparr>l_memTable := NewMemTable (l_MemTableSize l),
                   l_levels := sort_by_minKey (level0 @ [?sst]) # higher,
                   l_files := WAL_Reset (walPath l) (snd (CreateSSTable ?path ?data (l_files l)))\<rparr>"
    by (simp add: l'_def fl0)
  have ok: "fst (flushMemTable now l) = None" by (simp add: fl0)
  have pth: "sst_filePath ?sst = ?path" by (simp add: CreateSSTable_eq Let_def)
  have mem: "?sst \<in> set (hd (l_levels l'))"
    by (simp add: l' sort_by_minKey_def)
  have fl: "l_files l' (sst_filePath ?sst)
       = Some (records_bytes ?recs @ be32 (ChecksumIEEE (records_bytes ?recs)))"
    using sst_wal_distinct [of "l_FilePath l" now]
    by (simp add: l' CreateSSTable_eq Let_def WAL_Reset_def walPath_def add_entries_hasher
         sst_locals0_def ChecksumIEEE_def)
  have dm: "dom (sst_index ?sst) = fst ` set ?recs"
    by (simp add: CreateSSTable_eq Let_def add_entries_index_dom sst_locals0_def)
  have recs: "v \<noteq> tombstone \<and> map_of (mt_table (l_memTable l)) k = Some v"
    if "(k, v) \<in> set ?recs" for k v
  proof -
    from that have k: "k \<in> fst ` set ?data" and v: "v = map_get ?data k"
      by (auto simp: map_keys_def)
    from k obtain v' where "map_of ?data k = Some v'"
      by (metis weak_map_of_SomeI prod.collapse imageE)
    with v have mv: "map_of ?data k = Some v" by (simp add: map_get_def)
    then have "v \<noteq> tombstone"
      using map_of_filter_snd [of "\<lambda>v. v \<noteq> tombstone" "mt_table (l_memTable l)" k v]
      by (simp add: MemTable_Swap_def)
    moreover have "map_of (mt_table (l_memTable l)) k = Some v"
      using map_of_filter_distinct [OF assms(3), of "\<lambda>v. v \<noteq> tombstone" k v] mv
      by (simp add: MemTable_Swap_def)
    ultimately show ?thesis by simp
  qed
  show ?thesis
    unfolding l'_def [symmetric] using ok mem pth fl dm recs by blast
qed

theorem flush_has_no_tombstones_witness:
  "MemTable_Size (l_memTable ex_tree) \<noteq> 0 \<and> l_levels ex_tree \<noteq> []
   \<and> distinct (map fst (mt_table (l_memTable ex_tree)))
   \<and> map_of (mt_table (l_memTable ex_tree)) ''b'' = Some tombstone
   \<and> fst (flushMemTable 1 ex_tree) = None
   \<and> (\<exists>sst recs. sst \<in> set (hd (l_levels (snd (flushMemTable 1 ex_tree))))
           \<and> sst_filePath sst = sst_file_name (l_FilePath ex_tree) 1
           \<and> l_files (snd (flushMemTable 1 ex_tree)) (sst_filePath sst)
                = Some (records_bytes recs @ be32 (ChecksumIEEE (records_bytes recs)))
           \<and> dom (sst_index sst) = fst ` set recs
           \<and> (\<forall>(k, v) \<in> set recs.
                 v \<noteq> tombstone \<and> map_of (mt_table (l_memTable ex_tree)) k = Some v))"
proof -
  have h: "MemTable_Size (l_memTable ex_tree) \<noteq> 0" "l_levels ex_tree \<noteq> []"
     "distinct (map fst (mt_table (l_memTable ex_tree)))"
     "map_of (mt_table (l_memTable ex_tree)) ''b'' = Some tombstone"
    by (simp_all add: ex_tree_def lsm_eval)
  show ?thesis
    using h flush_has_no_tombstones [OF h(1) h(2) h(3), of 1] by blast
qed

section \<open>The format of the write-ahead log\<close>

lemma wal_encode_eq: "wal_encode e = we_Op e # entry_bytes (we_Key e) (we_Value e)"
  by (simp add: wal_encode_def entry_bytes_def)

lemma read_wal_entry:
  assumes "length k < 65536" "length v < 65536"
  shows "read_full (pre @ (op # entry_bytes k v) @ rest) (length pre) 1 = Some [op]"
    and "read_u16 (pre @ (op # entry_bytes k v) @ rest) (length pre + 1) = Some (len16 k)"
    and "read_full (pre @ (op # entry_bytes k v) @ rest) (length pre + 3) (length k) = Some (bytes_of k)"
    and "read_u16 (pre @ (op # entry_bytes k v) @ rest) (length pre + 3 + length k) = Some (len16 v)"
    and "read_full (pre @ (op # entry_bytes k v) @ rest) (length pre + 5 + length k) (length v)
           = Some (bytes_of v)"
proof -
  have eq: "pre @ (op # entry_bytes k v) @ rest = (pre @ [op]) @ entry_bytes k v @ rest" by simp
  have l1: "length (pre @ [op]) = length pre + 1" by simp
  have l3: "length pre + 1 + 2 = length pre + 3" by simp
  have l5: "length pre + 1 + 4 + length k = length pre + 5 + length k" by simp
  have l3k: "length pre + 1 + 2 + length k = length pre + 3 + length k" by simp
  show "read_full (pre @ (op # entry_bytes k v) @ rest) (length pre) 1 = Some [op]"
    using read_full_at [of pre "[op]" "entry_bytes k v @ rest"] by simp
  show "read_u16 (pre @ (op # entry_bytes k v) @ rest) (length pre + 1) = Some (len16 k)"
    using read_entry(1) [OF assms, of "pre @ [op]" rest] unfolding eq l1 .
  show "read_full (pre @ (op # entry_bytes k v) @ rest) (length pre + 3) (length k) = Some (bytes_of k)"
    using read_entry(2) [OF assms, of "pre @ [op]" rest] unfolding eq l1 l3 .
  show "read_u16 (pre @ (op # entry_bytes k v) @ rest) (length pre + 3 + length k) = Some (len16 v)"
    using read_entry(3) [OF assms, of "pre @ [op]" rest] unfolding eq l1 l3k .
  show "read_full (pre @ (op # entry_bytes k v) @ rest) (length pre + 5 + length k) (length v)
           = Some (bytes_of v)"
    using read_entry(4) [OF assms, of "pre @ [op]" rest] unfolding eq l1 l5 .
qed

lemma wal_replay_step:
  assumes "read_full file pos 1 = Some [op]"
      and "read_u16 file (pos + 1) = Some kl"
      and "read_full file (pos + 3) (unat kl) = Some kb"
      and "read_u16 file (pos + 3 + unat kl) = Some vl"
      and "read_full file (pos + 5 + unat kl) (unat vl) = Some vb"
  shows "wal_replay file pos m =
           wal_replay file (pos + 5 + unat kl + unat vl)
             (replay_apply op (string_of kb) (string_of vb) m)"
  using assms by (subst wal_replay.simps) (simp add: Let_def)

lemma wal_replay_entries:
  assumes "short_entries entries"
  shows "wal_replay (pre @ concat (map wal_encode entries)) (length pre) m = apply_entries entries m"
  using assms
proof (induction entries arbitrary: pre m)
  case Nil
  show ?case
    by (subst wal_replay.simps) (simp add: read_full_def apply_entries_def)
next
  case (Cons e entries)
  let ?k = "we_Key e" and ?v = "we_Value e"
  from Cons.prems have kv: "length ?k < 65536" "length ?v < 65536" and sh: "short_entries entries"
    by (simp_all add: short_entries_def)
  let ?rest = "concat (map wal_encode entries)"
  let ?file = "pre @ (we_Op e # entry_bytes ?k ?v) @ ?rest"
  have f: "pre @ concat (map wal_encode (e # entries)) = ?file"
    by (simp add: wal_encode_eq)
  have IH: "wal_replay ((pre @ wal_encode e) @ ?rest) (length (pre @ wal_encode e)) m'
              = apply_entries entries m'" for m'
    by (rule Cons.IH [OF sh])
  have f2: "(pre @ wal_encode e) @ ?rest = ?file" by (simp add: wal_encode_eq)
  have len: "length (pre @ wal_encode e) = length pre + 5 + length ?k + length ?v"
    by (simp add: wal_encode_eq)
  note rd = read_wal_entry [OF kv, of pre "we_Op e" ?rest]
  have "wal_replay ?file (length pre) m =
          wal_replay ?file (length pre + 5 + unat (len16 ?k) + unat (len16 ?v))
            (replay_apply (we_Op e) (string_of (bytes_of ?k)) (string_of (bytes_of ?v)) m)"
    by (rule wal_replay_step) (simp_all only: rd unat_len16 [OF kv(1)] unat_len16 [OF kv(2)])
  also have "\<dots> = apply_entries entries (replay_apply (we_Op e) ?k ?v m)"
    using IH [unfolded f2 len] by (simp add: unat_len16 kv)
  finally show ?case
    unfolding f by (simp add: apply_entries_def)
qed

text \<open>
  Claim C6, amended. Every WAL record written by the LSM write-ahead log consists of a
  1-byte op code, a big-endian 2-byte key length, the key bytes, a 2-byte value length and
  the value bytes, for insert and delete records alike: a delete record (op 0x01) is
  written with the empty value and so ends with the two zero bytes of its value length.
  WAL replay parses records under that same format: replaying a log of records whose keys
  and values are shorter than 65536 bytes applies exactly those records, in order.
\<close>

theorem wal_records_and_replay:
  assumes "short_entries entries"
      and "files path = Some (concat (map wal_encode entries))"
  shows "RecoverFromWAL path m files = (None, apply_entries entries m)
         \<and> (\<forall>e \<in> set entries.
               wal_encode e = we_Op e # be16 (len16 (we_Key e)) @ bytes_of (we_Key e)
                                @ be16 (len16 (we_Value e)) @ bytes_of (we_Value e))
         \<and> l_files (snd (LSMTree_Delete key l)) (walPath l)
             = Some (file_content (l_files l) (walPath l)
                     @ 1 # be16 (len16 key) @ bytes_of key @ [0, 0])"
proof -
  have "wal_replay (concat (map wal_encode entries)) 0 m = apply_entries entries m"
    using wal_replay_entries [OF assms(1), of "[]" m] by simp
  then have a: "RecoverFromWAL path m files = (None, apply_entries entries m)"
    using assms(2) by (cases entries) (auto simp: RecoverFromWAL_def apply_entries_def wal_encode_eq)
  have b: "wal_encode e = we_Op e # be16 (len16 (we_Key e)) @ bytes_of (we_Key e)
                                @ be16 (len16 (we_Value e)) @ bytes_of (we_Value e)" for e
    by (simp add: wal_encode_def)
  have c: "l_files (snd (LSMTree_Delete key l)) (walPath l)
             = Some (file_content (l_files l) (walPath l)
                     @ 1 # be16 (len16 key) @ bytes_of key @ [0, 0])"
    by (simp add: LSMTree_Delete_def Let_def WAL_Append_def walPath_def wal_encode_def
          len16_def be16_def bytes_of_def)
  show ?thesis using a b c by blast
qed

theorem wal_records_and_replay_witness:
  "short_entries ex_log
   \<and> [''d/db.wal'' \<mapsto> [0, 0, 1, 97, 0, 1, 49, 1, 0, 1, 97, 0, 0]] ''d/db.wal''
       = Some (concat (map wal_encode ex_log))
   \<and> RecoverFromWAL ''d/db.wal'' (NewMemTable 1024)
        [''d/db.wal'' \<mapsto> [0, 0, 1, 97, 0, 1, 49, 1, 0, 1, 97, 0, 0]]
       = (None, \<lparr>mt_table = [(''a'', tombstone)], mt_size = 2, mt_maxSize = 1024\<rparr>)"
proof -
  have h: "short_entries ex_log"
    "[''d/db.wal'' \<mapsto> [0, 0, 1, 97, 0, 1, 49, 1, 0, 1, 97, 0, 0]] ''d/db.wal''
       = Some (concat (map wal_encode ex_log))"
    by (simp_all add: ex_log_def short_entries_def wal_encode_def be16_def len16_def bytes_of_def)
  have "apply_entries ex_log (NewMemTable 1024)
          = \<lparr>mt_table = [(''a'', tombstone)], mt_size = 2, mt_maxSize = 1024\<rparr>"
    by (simp add: apply_entries_def ex_log_def replay_apply_def MemTable_Insert_def
          MemTable_Delete_def NewMemTable_def Let_def)
  then show ?thesis
    using h wal_records_and_replay [of ex_log
        "[''d/db.wal'' \<mapsto> [0, 0, 1, 97, 0, 1, 49, 1, 0, 1, 97, 0, 0]]" "''d/db.wal''"
        "NewMemTable 1024"]
    by simp
qed

text \<open>
  Claim C6 as stated fails: the record that \<open>LSMTree.Delete\<close> writes for the key
  \<open>k\<close> has two more bytes after the key, and a log holding a delete record that ends
  with the key bytes is replayed as an empty log.
\<close>

theorem delete_record_has_value_length:
  "l_files (snd (LSMTree_Delete ''k'' (NewLSMTree_empty ''d'' 1024 6400))) ''d/db.wal''
     = Some [1, 0, 1, 107, 0, 0]
   \<and> 1 # be16 (len16 ''k'') @ bytes_of ''k'' = [1, 0, 1, 107]
   \<and> RecoverFromWAL ''d/db.wal'' (NewMemTable 1024) [''d/db.wal'' \<mapsto> [1, 0, 1, 107]]
       = (None, NewMemTable 1024)"
  apply (simp add: lsm_eval RecoverFromWAL_def)
  apply (subst wal_replay.simps)
  apply (simp add: read_full_def read_u16_def)
  done

section \<open>Reads after a delete\<close>

text \<open>
  Claim C1. For the LSM backend, a key whose memtable entry is the tombstone reads as
  not-found whatever the block cache and the SSTables hold. The code does otherwise: on a
  fresh tree, insert \<open>k\<close>, flush, read \<open>k\<close> (which caches it from the SSTable) and
  delete \<open>k\<close>; the memtable then holds the tombstone for \<open>k\<close>, and the next read
  returns the cached value.
\<close>

theorem get_after_delete_returns_cached_value:
  "map_of (mt_table (l_memTable
     (snd (LSMTree_Delete ''k''
       (snd (LSMTree_Get ''k''
         (snd (flushMemTable 1
           (snd (LSMTree_Insert ''k'' ''v'' 0 (NewLSMTree_empty ''d'' 1024 6400))))))))))) ''k''
     = Some tombstone
   \<and> fst (LSMTree_Get ''k''
     (snd (LSMTree_Delete ''k''
       (snd (LSMTree_Get ''k''
         (snd (flushMemTable 1
           (snd (LSMTree_Insert ''k'' ''v'' 0 (NewLSMTree_empty ''d'' 1024 6400)))))))))) = Inr ''v''"
  by (simp add: lsm_eval show_int_1)

section \<open>Memtable: the byte cap\<close>

text \<open>
  Claim C9. For every memtable with byte cap C, an insert whose added size
  \<open>len(key) + len(value)\<close> brings the byte counter to exactly C succeeds, and the next
  insert of any pair with positive added size fails with the memtable-full error.
\<close>

theorem memtable_insert_at_cap:
  assumes "mt_size m + int (length key + length val) = mt_maxSize m"
      and "0 < length key' + length val'"
  shows "\<exists>m'. MemTable_Insert key val m = Inr m' \<and> mt_size m' = mt_maxSize m
            \<and> map_of (mt_table m') key = Some val
            \<and> MemTable_Insert key' val' m' = Inl ErrMemTableFull"
proof -
  let ?m' = "m\<lparr>mt_table := AList.update key val (mt_table m),
               mt_size := mt_size m + int (length key + length val)\<rparr>"
  have ins: "MemTable_Insert key val m = Inr ?m'"
    using assms(1) by (simp add: MemTable_Insert_def Let_def)
  have sz: "mt_size ?m' = mt_maxSize m"
    using assms(1) by simp
  have pos: "0 < int (length key' + length val')"
    using assms(2) by linarith
  have full: "MemTable_Insert key' val' ?m' = Inl ErrMemTableFull"
    using sz pos by (simp add: MemTable_Insert_def Let_def)
  have look: "map_of (mt_table ?m') key = Some val"
    by (simp add: update_conv')
  show ?thesis using ins sz look full by blast
qed

theorem memtable_insert_at_cap_witness:
  "mt_size (NewMemTable 4) + int (length ''ab'' + length ''cd'') = mt_maxSize (NewMemTable 4)
   \<and> 0 < length ''e'' + length ''''
   \<and> (\<exists>m'. MemTable_Insert ''ab'' ''cd'' (NewMemTable 4) = Inr m' \<and> mt_size m' = 4
          \<and> map_of (mt_table m') ''ab'' = Some ''cd''
          \<and> MemTable_Insert ''e'' '''' m' = Inl ErrMemTableFull)"
  using memtable_insert_at_cap [of "NewMemTable 4" "''ab''" "''cd''" "''e''" "''''"]
  by (simp add: NewMemTable_def)

section \<open>The index of an SSTable and point lookups\<close>

lemma add_entries_index:
  "w_index (add_entries f recs w) = w_index w ++ rec_offsets (w_offset w) recs"
proof (induction recs arbitrary: f w)
  case Nil
  then show ?case by simp
next
  case (Cons r recs)
  show ?case
    by (rule ext) (auto simp: Cons.IH sst_add_entry_def map_add_def split: option.splits)
qed

lemma add_entries_offset:
  "w_offset (add_entries f recs w) = w_offset w + int (length (records_bytes recs))"
  by (induction recs arbitrary: f w) (auto simp: sst_add_entry_def)

lemma add_entries_minKey:
  "w_minKey (add_entries f recs w) = (if f \<and> recs \<noteq> [] then fst (hd recs) else w_minKey w)"
  by (induction recs arbitrary: f w) (auto simp: sst_add_entry_def)

lemma add_entries_maxKey:
  "w_maxKey (add_entries f recs w) = (if recs \<noteq> [] then fst (last recs) else w_maxKey w)"
  by (induction recs arbitrary: f w) (auto simp: sst_add_entry_def)

lemma rec_offsets_dom: "dom (rec_offsets off recs) = fst ` set recs"
  by (induction recs arbitrary: off) auto

lemma rec_offsets_None: "rec_offsets off recs k = None \<longleftrightarrow> k \<notin> fst ` set recs"
  using rec_offsets_dom [of off recs] by (metis domIff)

lemma rec_offsets_last:
  assumes "rec_offsets off recs k = Some p"
  shows "\<exists>pre v post. recs = pre @ (k, v) # post \<and> p = off + int (length (records_bytes pre))
           \<and> k \<notin> fst ` set post"
  using assms
proof (induction recs arbitrary: off)
  case Nil
  then show ?case by simp
next
  case (Cons r recs)
  obtain k' v' where r: "r = (k', v')" by (cases r)
  let ?off' = "off + int (length (entry_bytes k' v'))"
  show ?case
  proof (cases "rec_offsets ?off' recs k")
    case None
    then have notin: "k \<notin> fst ` set recs"
      by (simp add: rec_offsets_None)
    from Cons.prems None r have "k = k'" "p = off"
      by (auto simp: map_add_def split: if_splits)
    then have "r # recs = [] @ (k, v') # recs \<and> p = off + int (length (records_bytes []))
                 \<and> k \<notin> fst ` set recs"
      using r notin by simp
    then show ?thesis by blast
  next
    case (Some q)
    with Cons.prems r have "p = q" by (auto simp: map_add_def)
    with Some obtain pre v post where
      "recs = pre @ (k, v) # post" "p = ?off' + int (length (records_bytes pre))"
      "k \<notin> fst ` set post"
      using Cons.IH [of ?off'] by blast
    then have "r # recs = (r # pre) @ (k, v) # post
        \<and> p = off + int (length (records_bytes (r # pre))) \<and> k \<notin> fst ` set post"
      using r by simp
    then show ?thesis by blast
  qed
qed

lemma map_of_rev_last:
  assumes "k \<notin> fst ` set post"
  shows "map_of (rev (pre @ (k, v) # post)) k = Some v"
proof -
  have "map_of (rev post) k = None"
    using assms by (simp add: map_of_eq_None_iff)
  then show ?thesis by (simp add: map_add_def)
qed

lemma SSTable_Get_records:
  assumes "short_records recs"
      and "files (sst_filePath s) = Some (records_bytes recs @ suf)"
      and "sst_index s = rec_offsets 0 recs"
  shows "SSTable_Get files s k =
           (case map_of (rev recs) k of None \<Rightarrow> ('''', False) | Some v \<Rightarrow> (v, True))"
proof (cases "rec_offsets 0 recs k")
  case None
  then have "k \<notin> fst ` set recs"
    by (simp add: rec_offsets_None)
  then have "map_of (rev recs) k = None"
    by (simp add: map_of_eq_None_iff)
  with None assms(3) show ?thesis
    by (simp add: SSTable_Get_def)
next
  case (Some p)
  then obtain pre v post where
    recs: "recs = pre @ (k, v) # post" and p: "p = int (length (records_bytes pre))"
    and notin: "k \<notin> fst ` set post"
    using rec_offsets_last [of 0 recs k p] by auto
  have kv: "length k < 65536" "length v < 65536"
    using assms(1) recs by (simp_all add: short_records_def)
  have f: "records_bytes recs @ suf
             = records_bytes pre @ entry_bytes k v @ (records_bytes post @ suf)"
    by (simp add: recs)
  note rd = read_entry [OF kv, of "records_bytes pre" "records_bytes post @ suf"]
  have "SSTable_Get files s k = (v, True)"
    using Some assms(2,3) p rd
    by (simp add: SSTable_Get_def f unat_len16 kv)
  moreover have "map_of (rev recs) k = Some v"
    unfolding recs by (rule map_of_rev_last [OF notin])
  ultimately show ?thesis by simp
qed

section \<open>Merging SSTables\<close>

lemma sst_holdsD:
  assumes "sst_holds files sst recs"
  shows "\<exists>c. length c = 4 \<and> files (sst_filePath sst) = Some (records_bytes recs @ c)"
proof -
  from assms obtain f where f: "files (sst_filePath sst) = Some f"
      "length f = length (records_bytes recs) + 4"
      "take (length (records_bytes recs)) f = records_bytes recs"
    by (auto simp: sst_holds_def split: option.splits)
  have "f = records_bytes recs @ drop (length (records_bytes recs)) f"
    using f(3) by (metis append_take_drop_id)
  moreover have "length (drop (length (records_bytes recs)) f) = 4"
    using f(2) by simp
  ultimately show ?thesis using f(1) by metis
qed

lemma add_entries_sst:
  "\<lparr>sst_filePath = path, sst_minKey = w_minKey (add_entries True recs sst_locals0),
     sst_maxKey = w_maxKey (add_entries True recs sst_locals0),
     sst_size = w_offset (add_entries True recs sst_locals0),
     sst_index = w_index (add_entries True recs sst_locals0),
     sst_checksum = w_hasher (add_entries True recs sst_locals0)\<rparr>
   = sst_of_records path recs"
  by (simp add: sst_of_records_def add_entries_minKey add_entries_maxKey add_entries_offset
        add_entries_index add_entries_hasher sst_locals0_def ChecksumIEEE_def)

lemma OpenSSTable_records:
  assumes "short_records recs"
      and "files path = Some (records_bytes recs @ be32 (ChecksumIEEE (records_bytes recs)))"
  shows "OpenSSTable path files = Inr (sst_of_records path recs)"
proof -
  let ?w = "add_entries True recs sst_locals0"
  let ?body = "records_bytes recs"
  let ?c = "ChecksumIEEE ?body"
  have scan: "scan_entries (?body @ be32 ?c) (int (length ?body)) 0 sst_locals0
        = Inr (length ?body, ?w)"
    using scan_entries_records [OF assms(1), of sst_locals0 "[]" "be32 ?c"]
    by (simp add: sst_locals0_def)
  have rd: "read_u32 (?body @ be32 ?c) (length ?body) = Some ?c"
    using read_u32_at [of ?body ?c "[]"] by simp
  have h: "w_hasher ?w = ?c"
    by (simp add: add_entries_hasher sst_locals0_def ChecksumIEEE_def)
  show ?thesis
    using add_entries_sst [of path recs]
    by (simp add: OpenSSTable_def assms(2) Let_def scan rd h)
qed

lemma copy_bodies_records:
  assumes "list_all2 (sst_holds files) ssts recss"
      and "newPath \<notin> sst_filePath ` set ssts"
  shows "copy_bodies newPath ssts (files(newPath \<mapsto> acc))
           = (None, files(newPath \<mapsto> acc @ records_bytes (concat recss)))"
  using assms
proof (induction ssts recss arbitrary: acc rule: list_all2_induct)
  case Nil
  then show ?case by simp
next
  case (Cons sst ssts recs recss)
  from sst_holdsD [OF Cons.hyps(1)] obtain c where c: "length c = 4"
      "files (sst_filePath sst) = Some (records_bytes recs @ c)"
    by blast
  from Cons.prems have ne: "sst_filePath sst \<noteq> newPath" and fresh: "newPath \<notin> sst_filePath ` set ssts"
    by auto
  have rd: "(files(newPath \<mapsto> acc)) (sst_filePath sst) = Some (records_bytes recs @ c)"
    using c ne by simp
  have tk: "take (nat (int (length (records_bytes recs @ c)) - 4)) (records_bytes recs @ c)
              = records_bytes recs"
    using c by simp
  have fc: "file_content (files(newPath \<mapsto> acc)) newPath = acc"
    by (simp add: file_content_def)
  have step: "copy_bodies newPath (sst # ssts) (files(newPath \<mapsto> acc))
          = copy_bodies newPath ssts (files(newPath \<mapsto> acc @ records_bytes recs))"
    by (simp only: copy_bodies.simps rd option.case Let_def tk fc fun_upd_upd)
  show ?case
    unfolding step using Cons.IH [OF fresh, of "acc @ records_bytes recs"]
    by (simp only: concat.simps records_bytes_append append_assoc)
qed

lemma mergeSSTables_records:
  assumes "list_all2 (sst_holds files) ssts recss"
      and "sst_file_name dir now \<notin> sst_filePath ` set ssts"
      and "short_records (concat recss)"
  shows "mergeSSTables ssts dir now files =
           (Inr (sst_of_records (sst_file_name dir now) (concat recss)),
            files(sst_file_name dir now \<mapsto> records_bytes (concat recss)
                     @ be32 (ChecksumIEEE (records_bytes (concat recss)))))"
proof -
  let ?p = "sst_file_name dir now"
  let ?body = "records_bytes (concat recss)"
  have cp: "copy_bodies ?p ssts (files(?p \<mapsto> [])) = (None, files(?p \<mapsto> ?body))"
    using copy_bodies_records [OF assms(1,2), of "[]"] by simp
  have op: "OpenSSTable ?p (files(?p \<mapsto> ?body @ be32 (ChecksumIEEE ?body)))
              = Inr (sst_of_records ?p (concat recss))"
    by (rule OpenSSTable_records [OF assms(3)]) simp
  show ?thesis
    by (simp add: mergeSSTables_def Let_def cp file_content_def op)
qed

section \<open>An example with four flushes\<close>

lemma show_int_small:
  "show_int 2 = ''2''" "show_int 3 = ''3''" "show_int 4 = ''4''" "show_int 5 = ''5''"
  by code_simp+

lemmas ex_defs = ex_unmerged_def ex_flushed3_def ex_flushed2_def ex_flushed1_def

lemmas merge_eval = Compact_def mergeSSTables_def
  OpenSSTable_def scan_entries.simps read_u32_def be32_def be32_decode_be32 ChecksumIEEE_def
  crc32_update_append

lemma ex_unmerged_eq:
  "ex_unmerged =
     \<lparr>l_FilePath = ''d'', l_MemTableSize = 1024, l_memTable = \<lparr>mt_table = [],
     mt_size = 0, mt_maxSize = 1024\<rparr>, l_levels = [[\<lparr>sst_filePath =
     ''d/db.sst.2.sst'', sst_minKey = ''a'', sst_maxKey = ''c'', sst_size = 14, sst_index =
     [''a'' \<mapsto> 0, ''c'' \<mapsto> 6], sst_checksum = crc32_update (crc32_update 0 [0,
     1, 97, 0, 1, 50]) [0, 1, 99, 0, 3, 110, 101, 119]\<rparr>, \<lparr>sst_filePath =
     ''d/db.sst.1.sst'', sst_minKey = ''b'', sst_maxKey = ''c'', sst_size = 14, sst_index =
     [''b'' \<mapsto> 0, ''c'' \<mapsto> 6], sst_checksum = crc32_update (crc32_update 0 [0,
     1, 98, 0, 1, 49]) [0, 1, 99, 0, 3, 111, 108, 100]\<rparr>, \<lparr>sst_filePath =
     ''d/db.sst.3.sst'', sst_minKey = ''x'', sst_maxKey = ''x'', sst_size = 6, sst_index =
     [''x'' \<mapsto> 0], sst_checksum = crc32_update 0 [0, 1, 120, 0, 1, 51]\<rparr>,
     \<lparr>sst_filePath = ''d/db.sst.4.sst'', sst_minKey = ''y'', sst_maxKey = ''y'',
     sst_size = 6, sst_index = [''y'' \<mapsto> 0], sst_checksum = crc32_update 0 [0, 1, 121,
     0, 1, 52]\<rparr>]], l_cache = \<lparr>c_capacity = 100, c_order = []\<rparr>, l_files =
     [''d/db.sst.1.sst'' \<mapsto> 0 # 1 # 98 # 0 # 1 # 49 # 0 # 1 # 99 # 0 # 3 # 111 # 108 #
     100 # be32 (crc32_update (crc32_update 0 [0, 1, 98, 0, 1, 49]) [0, 1, 99, 0, 3, 111,
     108, 100]), ''d/db.sst.2.sst'' \<mapsto> 0 # 1 # 97 # 0 # 1 # 50 # 0 # 1 # 99 # 0 # 3 #
     110 # 101 # 119 # be32 (crc32_update (crc32_update 0 [0, 1, 97, 0, 1, 50]) [0, 1, 99, 0,
     3, 110, 101, 119]), ''d/db.sst.3.sst'' \<mapsto> 0 # 1 # 120 # 0 # 1 # 51 # be32
     (crc32_update 0 [0, 1, 120, 0, 1, 51]), ''d/db.sst.4.sst'' \<mapsto> 0 # 1 # 121 # 0 # 1
     # 52 # be32 (crc32_update 0 [0, 1, 121, 0, 1, 52]), ''d/db.wal'' \<mapsto> []]\<rparr>"
  by (simp add: ex_defs lsm_eval show_int_1 show_int_small)

lemma ex_unmerged_holds:
  "list_all2 (sst_holds (l_files ex_unmerged)) (hd (l_levels ex_unmerged)) ex_records"
  "sst_file_name ''d'' 5 \<notin> sst_filePath ` set (hd (l_levels ex_unmerged))"
  "short_records (concat ex_records)"
  by (simp_all add: ex_unmerged_eq sst_holds_def ex_records_def entry_bytes_def be16_def len16_def
        bytes_of_def short_records_def sst_file_name_def show_int_small)




section \<open>Forced compaction\<close>

lemma length_sort_by_minKey [simp]: "length (sort_by_minKey xs) = length xs"
  by (simp add: sort_by_minKey_def)

lemma Compact_below_threshold:
  "l_levels l = level0 # higher \<Longrightarrow> length level0 < 4 \<Longrightarrow> Compact now l = (None, l)"
  by (simp add: Compact_def)

lemma flushMemTable_eq:
  assumes "MemTable_Size (l_memTable l) \<noteq> 0" "l_levels l = level0 # higher"
  shows "flushMemTable now l =
     (None, l\<lparr>l_memTable := NewMemTable (l_MemTableSize l),
              l_levels := sort_by_minKey (level0 @
                 [fst (CreateSSTable (sst_file_name (l_FilePath l) now)
                        (fst (MemTable_Swap (l_memTable l))) (l_files l))]) # higher,
              l_files := WAL_Reset (walPath l)
                 (snd (CreateSSTable (sst_file_name (l_FilePath l) now)
                        (fst (MemTable_Swap (l_memTable l))) (l_files l)))\<rparr>)"
  using assms by (auto simp: flushMemTable_def Let_def split: prod.splits)

lemma ForceCompaction_below_threshold:
  assumes "l_levels l = level0 # higher"
      and "length level0 + (if 0 < MemTable_Size (l_memTable l) then 1 else 0) < 4"
  shows "ForceCompaction now1 now2 l =
           (if 0 < MemTable_Size (l_memTable l) then flushMemTable now1 l else (None, l))"
proof (cases "0 < MemTable_Size (l_memTable l)")
  case True
  then have ne: "MemTable_Size (l_memTable l) \<noteq> 0" by simp
  show ?thesis
    using True assms(2)
    by (simp add: ForceCompaction_def flushMemTable_eq [OF ne assms(1)] Compact_def)
next
  case False
  then show ?thesis
    using assms by (simp add: ForceCompaction_def Compact_below_threshold)
qed

lemma CreateSSTable_records:
  "CreateSSTable path data files =
     (sst_of_records path (map (\<lambda>k. (k, map_get data k)) (sort (map_keys data))),
      files(path \<mapsto> records_bytes (map (\<lambda>k. (k, map_get data k)) (sort (map_keys data)))
              @ be32 (ChecksumIEEE (records_bytes
                   (map (\<lambda>k. (k, map_get data k)) (sort (map_keys data)))))))"
  using add_entries_sst [of path "map (\<lambda>k. (k, map_get data k)) (sort (map_keys data))"]
  by (simp add: CreateSSTable_eq Let_def add_entries_hasher sst_locals0_def ChecksumIEEE_def)

lemma sorted_hd_last:
  assumes "sorted xs" "k \<in> set xs"
  shows "hd xs \<le> k \<and> k \<le> last xs"
proof -
  from assms(2) obtain i where i: "i < length xs" "xs ! i = k"
    by (auto simp: in_set_conv_nth)
  then have ne: "xs \<noteq> []" by auto
  have "xs ! 0 \<le> xs ! i" using assms(1) i(1) by (intro sorted_nth_mono) auto
  moreover have "xs ! i \<le> xs ! (length xs - 1)"
    using assms(1) i(1) by (intro sorted_nth_mono) auto
  ultimately show ?thesis
    using i ne by (simp add: hd_conv_nth last_conv_nth)
qed

lemma sort_Search_one: "sort_Search 1 f = (if f 0 then 0 else 1)"
proof -
  have a: "sort_Search_loop f 0 0 = 0" by (subst sort_Search_loop.simps) simp
  have b: "sort_Search_loop f 1 1 = 1" by (subst sort_Search_loop.simps) simp
  have "sort_Search_loop f 0 1 = (if f 0 then 0 else 1)"
    using a b by (subst sort_Search_loop.simps) simp
  then show ?thesis by (simp add: sort_Search_def)
qed

lemma search_levels_single:
  assumes "sst_minKey s \<le> k" "k \<le> sst_maxKey s" "SSTable_Get files s k = (v, True)"
  shows "search_levels files ([s] # levels) k = Some v"
proof -
  have "sort_Search (length [s]) (\<lambda>i. sst_maxKey ([s] ! i) \<ge> k) = 0"
    using assms(2) sort_Search_one [of "\<lambda>i. sst_maxKey ([s] ! i) \<ge> k"] by simp
  then show ?thesis
    using assms(1,3) by (simp only: search_levels.simps Let_def) simp
qed

lemma map_of_rev_distinct:
  assumes "distinct (map fst recs)"
  shows "map_of (rev recs) = map_of recs"
proof (rule ext)
  fix k
  show "map_of (rev recs) k = map_of recs k"
  proof (cases "map_of recs k")
    case None
    then have "k \<notin> fst ` set (rev recs)" by (simp add: map_of_eq_None_iff)
    then have "map_of (rev recs) k = None" by (simp only: map_of_eq_None_iff simp_thms)
    then show ?thesis using None by simp
  next
    case (Some v)
    then have "(k, v) \<in> set (rev recs)" by (auto dest: map_of_SomeD)
    moreover have "distinct (map fst (rev recs))" using assms by (simp add: rev_map [symmetric])
    ultimately show ?thesis using Some by simp
  qed
qed

lemma swap_map_of:
  assumes "distinct (map fst (mt_table m))" "map_of (mt_table m) k = Some v" "v \<noteq> tombstone"
  shows "map_of (fst (MemTable_Swap m)) k = Some v"
proof -
  have "(k, v) \<in> set (filter (\<lambda>(key, val). val \<noteq> tombstone) (mt_table m))"
    using assms(2,3) by (auto dest: map_of_SomeD)
  moreover have "distinct (map fst (filter (\<lambda>(key, val). val \<noteq> tombstone) (mt_table m)))"
    using assms(1) by (simp add: distinct_map_filter)
  ultimately show ?thesis by (simp add: MemTable_Swap_def)
qed

lemma short_swap:
  "short_records (mt_table m) \<Longrightarrow> short_records (fst (MemTable_Swap m))"
  by (auto simp: short_records_def MemTable_Swap_def list_all_iff)

lemma ForceCompaction_fresh:
  assumes lv: "l_levels l = [[]]"
      and sz: "0 < MemTable_Size (l_memTable l)"
      and dist: "distinct (map fst (mt_table (l_memTable l)))"
      and sh: "short_records (mt_table (l_memTable l))"
      and cache: "c_order (l_cache l) = []"
  shows "fst (ForceCompaction now1 now2 l) = None
         \<and> (\<exists>sst. l_levels (snd (ForceCompaction now1 now2 l)) = [[sst]])
         \<and> (\<forall>k v. map_of (mt_table (l_memTable l)) k = Some v \<and> v \<noteq> tombstone
               \<longrightarrow> fst (LSMTree_Get k (snd (ForceCompaction now1 now2 l))) = Inr v)"
proof -
  let ?data = "fst (MemTable_Swap (l_memTable l))"
  let ?keys = "sort (map_keys ?data)"
  let ?recs = "map (\<lambda>k. (k, map_get ?data k)) ?keys"
  let ?path = "sst_file_name (l_FilePath l) now1"
  let ?sst = "sst_of_records ?path ?recs"
  let ?body = "records_bytes ?recs"
  let ?files' = "WAL_Reset (walPath l) ((l_files l)(?path \<mapsto> ?body @ be32 (ChecksumIEEE ?body)))"
  let ?l' = "l\<lparr>l_memTable := NewMemTable (l_MemTableSize l), l_levels := [[?sst]],
               l_files := ?files'\<rparr>"
  have ne: "MemTable_Size (l_memTable l) \<noteq> 0" using sz by simp
  have fl: "flushMemTable now1 l = (None, ?l')"
    by (simp add: flushMemTable_eq [OF ne lv] CreateSSTable_records sort_by_minKey_def)
  have fc: "ForceCompaction now1 now2 l = (None, ?l')"
    using ForceCompaction_below_threshold [OF lv, of now1 now2] sz by (simp add: fl)
  have shr: "short_records ?recs"
    by (rule short_records_of_data [OF short_swap [OF sh]])
  have fil: "?files' (sst_filePath ?sst) = Some (?body @ be32 (ChecksumIEEE ?body))"
    using sst_wal_distinct [of "l_FilePath l" now1]
    by (simp add: WAL_Reset_def walPath_def sst_of_records_def)
  have dk: "distinct (map fst ?recs)"
    by (simp add: comp_def map_keys_def)
  have get: "fst (LSMTree_Get k ?l') = Inr v"
    if kv: "map_of (mt_table (l_memTable l)) k = Some v" "v \<noteq> tombstone" for k v
  proof -
    have dv: "map_of ?data k = Some v" by (rule swap_map_of [OF dist kv])
    then have kin: "k \<in> set ?keys"
      by (auto simp: map_keys_def dest!: map_of_SomeD intro: rev_image_eqI)
    then have "?keys \<noteq> []" by (metis empty_iff empty_set)
    then have rne: "?recs \<noteq> []" by (simp only: map_is_Nil_conv simp_thms)
    have mg: "map_get ?data k = v" using dv by (simp add: map_get_def)
    have "map_of ?recs k = Some v"
      using kin mg by (simp add: map_of_map_restrict restrict_map_def)
    then have mrev: "map_of (rev ?recs) k = Some v"
      by (simp add: map_of_rev_distinct [OF dk])
    have sget: "SSTable_Get ?files' ?sst k = (v, True)"
      using SSTable_Get_records [of ?recs ?files' ?sst "be32 (ChecksumIEEE ?body)" k, OF shr fil]
        mrev
      by (simp add: sst_of_records_def)
    have rng: "hd ?keys \<le> k \<and> k \<le> last ?keys"
      by (rule sorted_hd_last [OF _ kin]) simp
    have mn: "sst_minKey ?sst = hd ?keys" and mx: "sst_maxKey ?sst = last ?keys"
      using rne by (simp_all add: sst_of_records_def hd_map last_map)
    have sl: "search_levels ?files' [[?sst]] k = Some v"
      using rng by (intro search_levels_single) (simp_all only: mn mx sget)
    show ?thesis
      using sl by (simp add: LSMTree_Get_def MemTable_Get_def NewMemTable_def Cache_Get_def cache)
  qed
  show ?thesis
    using get by (auto simp: fc)
qed


lemma Compact_merges:
  assumes "l_levels l = level0 # higher"
      and "4 \<le> length level0"
      and "list_all2 (sst_holds (l_files l)) level0 recss"
      and "sst_file_name (l_FilePath l) now \<notin> sst_filePath ` set level0"
      and "short_records (concat recss)"
  shows "fst (Compact now l) = None
         \<and> l_levels (snd (Compact now l))
             = [] # sort_by_minKey ((case higher of [] \<Rightarrow> [] | level1 # rest \<Rightarrow> level1)
                      @ [sst_of_records (sst_file_name (l_FilePath l) now) (concat recss)])
                  # tl higher"
  using assms(1,2) mergeSSTables_records [OF assms(3,4,5)]
  by (cases higher) (simp_all add: Compact_def)


lemma ex_tree_facts:
  "l_levels ex_tree = [[]]" "0 < MemTable_Size (l_memTable ex_tree)"
  "distinct (map fst (mt_table (l_memTable ex_tree)))"
  "short_records (mt_table (l_memTable ex_tree))" "c_order (l_cache ex_tree) = []"
  "map_of (mt_table (l_memTable ex_tree)) ''a'' = Some ''1''"
  by (simp_all add: ex_tree_def lsm_eval short_records_def)

lemma ex_unmerged_facts:
  "MemTable_Size (l_memTable ex_unmerged) = 0"
  "l_levels ex_unmerged = hd (l_levels ex_unmerged) # []"
  "4 \<le> length (hd (l_levels ex_unmerged))"
  "l_FilePath ex_unmerged = ''d''"
  by (simp_all add: ex_unmerged_eq MemTable_Size_def)




section \<open>The B-tree on concrete inputs\<close>

text \<open>Fuel given as a numeral, and the definitions that evaluate the B-tree operations.\<close>

lemma fuel_numeral:
  "insertNonFull (numeral k) = insertNonFull (Suc (pred_numeral k))"
  "searchValue (numeral k) = searchValue (Suc (pred_numeral k))"
  "deleteFromNode (numeral k) = deleteFromNode (Suc (pred_numeral k))"
  "getPredecessor (numeral k) = getPredecessor (Suc (pred_numeral k))"
  "getSuccessor (numeral k) = getSuccessor (Suc (pred_numeral k))"
  by (simp_all add: numeral_eq_Suc)

lemma read_numeral:
  "read_items (numeral k) = read_items (Suc (pred_numeral k))"
  "read_children (numeral k) = read_children (Suc (pred_numeral k))"
  "find_slot key items (numeral k) = find_slot key items (Suc (pred_numeral k))"
  by (simp_all add: numeral_eq_Suc)

lemmas bt_eval =
  bt_return_def bt_fail_def bt_bind_def bt_get_def bt_modify_def new_node_def node_at_def
  update_node_def index_at_def slice_from_def slice_to_def le16_def le32_def le64_def
  read_at_def write_at_def pad_page_def item_bytes_def node_bytes_def writeNodeToDisk_def
  take_field_def reader_read_def parse_node_def readNodeFromDisk_def saveHeader_def
  allocateNode_def isLeaf_def cacheNode_def moveToFront_def readNode_def writeNode_def
  find_index.simps splitChild_def Insert_def Get_def bt_catch_def mergeNodes_def
  borrowFromPrev_def borrowFromNext_def has_spare_def fill_def Delete_def NewBtree_empty_def
  Let_def len16_def bytes_of_def string_of_def char_of_def bit_0 fuel_numeral read_numeral

section \<open>Insert then get\<close>

text \<open>
  Claim C2. For both backends, after a successful \<open>insert(k, v)\<close> and no later mutation
  of \<open>k\<close>, \<open>get(k)\<close> returns \<open>v\<close>, also when \<open>k\<close> was present with another value.
  The B-tree does otherwise: on a new tree of degree 2, inserting \<open>a\<close> with value \<open>1\<close>
  and then \<open>a\<close> with value \<open>2\<close> succeeds twice and counts two items, and \<open>get(a)\<close>
  returns \<open>1\<close>.
\<close>

theorem btree_insert_existing_key_keeps_old_value:
  "fst (Insert 10 ''a'' ''1'' (NewBtree_empty 2 64 0)) = Inr ()
   \<and> fst (Insert 10 ''a'' ''2'' (snd (Insert 10 ''a'' ''1'' (NewBtree_empty 2 64 0)))) = Inr ()
   \<and> fst (Get 10 ''a'' (snd (Insert 10 ''a'' ''2''
            (snd (Insert 10 ''a'' ''1'' (NewBtree_empty 2 64 0)))))) = Inr ''1''
   \<and> bt_Length (snd (Insert 10 ''a'' ''2''
            (snd (Insert 10 ''a'' ''1'' (NewBtree_empty 2 64 0))))) = 2"
  by (simp add: bt_eval del: Suc_numeral)

section \<open>An insert that overflows the page\<close>

text \<open>
  Claim C7. An insert whose node would exceed the page size returns an error and leaves the
  tree unchanged. The code returns the error but changes the tree. Without a cache and with
  a full root, the root is split and written before the leaf write fails, and the root
  offset is not updated: the keys \<open>b\<close> and \<open>c\<close> are lost. With a cache, the cached
  leaf is changed in place before its write fails: the rejected key is then found.
\<close>

theorem btree_failed_insert_changes_tree:
  "fst (Get 10 ''c'' bt_full) = Inr ''3''
   \<and> fst (Insert 10 ''d'' long_value bt_full) = Inl ErrNodeTooLarge
   \<and> bt_Length (snd (Insert 10 ''d'' long_value bt_full)) = 3
   \<and> fst (Get 10 ''c'' (snd (Insert 10 ''d'' long_value bt_full))) = Inl ErrKeyNotFoundText
   \<and> fst (Get 10 ''b'' (snd (Insert 10 ''d'' long_value bt_full))) = Inl ErrKeyNotFoundText
   \<and> fst (Get 10 ''d'' bt_cached) = Inl ErrKeyNotFoundText
   \<and> fst (Insert 10 ''d'' long_value bt_cached) = Inl ErrNodeTooLarge
   \<and> bt_file (snd (Insert 10 ''d'' long_value bt_cached)) = bt_file bt_cached
   \<and> fst (Get 10 ''d'' (snd (Insert 10 ''d'' long_value bt_cached))) = Inr long_value"
  by (simp add: bt_full_def bt_cached_def long_value_def bt_eval del: Suc_numeral)


section \<open>Delete on the B-tree along a search path\<close>

subsection \<open>Reading back a leaf page\<close>

lemma unat_ucast_8: "unat (ucast (w :: 'a::len word) :: byte) = unat w mod 256"
  by (simp add: unsigned_ucast_eq take_bit_eq_mod)

lemma unat_drop_bit: "unat (drop_bit n (w :: 'a::len word)) = unat w div 2 ^ n"
  unfolding unat_drop_bit_eq by (simp add: drop_bit_eq_div)

lemma le_decode_le16: "le_decode (le16 w) = unat w"
proof -
  have "unat w < 65536" using unsigned_less [of w, where 'a = nat] by simp
  then show ?thesis
    by (simp add: le16_def unat_ucast_8 unat_drop_bit)
qed

lemma le4_sum:
  fixes n a b c r0 r1 r2 :: nat
  assumes "256 * a + r0 = n" "256 * b + r1 = a" "256 * c + r2 = b"
  shows "r0 + (256 * r1 + (65536 * r2 + 16777216 * c)) = n"
  using assms by linarith

lemma le_decode_le32: "le_decode (le32 w) = unat w"
proof -
  have bound: "unat w < 4294967296" using unsigned_less [of w, where 'a = nat] by simp
  have d1: "unat w div 65536 = unat w div 256 div 256"
    and d2: "unat w div 16777216 = unat w div 256 div 256 div 256"
    by (simp_all add: div_mult2_eq [symmetric])
  have eq: "unat w mod 256 + (256 * (unat w div 256 mod 256) +
      (65536 * (unat w div 65536 mod 256) + 16777216 * (unat w div 16777216))) = unat w"
    unfolding d1 d2
    by (rule le4_sum) (rule mult_div_mod_eq)+
  from bound eq show ?thesis
    by (simp add: le32_def unat_ucast_8 unat_drop_bit)
qed

lemma length_le16 [simp]: "length (le16 w) = 2"
  by (simp add: le16_def)

lemma length_le32 [simp]: "length (le32 w) = 4"
  by (simp add: le32_def)

lemma take_field_le16: "take_field 2 (le16 w @ rest) = Some (unat w, rest)"
  by (simp add: take_field_def le_decode_le16)

lemma take_field_le32: "take_field 4 (le32 w @ rest) = Some (unat w, rest)"
  by (simp add: take_field_def le_decode_le32)

lemma reader_read_bytes:
  "rest \<noteq> [] \<Longrightarrow> reader_read (length bs) (bs @ rest) = Some (bs, rest)"
  by (simp add: reader_read_def)

lemma read_items_bytes:
  assumes "short_items items" "rest \<noteq> []"
  shows "read_items (length items) (concat (map item_bytes items) @ rest) = Some (items, rest)"
  using assms
proof (induction items)
  case Nil
  then show ?case by simp
next
  case (Cons it items)
  from Cons.prems have kv: "length (it_Key it) < 65536" "length (it_Value it) < 65536"
    and sh: "short_items items"
    by (simp_all add: short_items_def)
  let ?tail = "concat (map item_bytes items) @ rest"
  have ne: "?tail \<noteq> []" using Cons.prems(2) by simp
  have ne2: "le16 (len16 (it_Value it)) @ bytes_of (it_Value it) @ ?tail \<noteq> []"
    by (simp add: le16_def)
  have r1: "reader_read (length (it_Key it))
              (bytes_of (it_Key it) @ le16 (len16 (it_Value it)) @ bytes_of (it_Value it) @ ?tail)
            = Some (bytes_of (it_Key it), le16 (len16 (it_Value it)) @ bytes_of (it_Value it) @ ?tail)"
    using reader_read_bytes [OF ne2, of "bytes_of (it_Key it)"] by simp
  have r2: "reader_read (length (it_Value it)) (bytes_of (it_Value it) @ ?tail)
            = Some (bytes_of (it_Value it), ?tail)"
    using reader_read_bytes [OF ne, of "bytes_of (it_Value it)"] by simp
  have eq: "concat (map item_bytes (it # items)) @ rest
            = le16 (len16 (it_Key it)) @ bytes_of (it_Key it)
                @ le16 (len16 (it_Value it)) @ bytes_of (it_Value it) @ ?tail"
    by (simp add: item_bytes_def)
  have ih: "read_items (length items) ?tail = Some (items, rest)"
    using Cons.IH [OF sh Cons.prems(2)] .
  have "read_items (Suc (length items))
          (le16 (len16 (it_Key it)) @ bytes_of (it_Key it)
             @ le16 (len16 (it_Value it)) @ bytes_of (it_Value it) @ ?tail)
        = Some (\<lparr>it_Key = string_of (bytes_of (it_Key it)),
                  it_Value = string_of (bytes_of (it_Value it))\<rparr> # items, rest)"
    by (simp only: read_items.simps take_field_le16 unat_len16 [OF kv(1)]
          unat_len16 [OF kv(2)] r1 r2 ih option.case prod.case)
  then show ?case
    unfolding eq by (simp only: list.size string_of_bytes_of) simp
qed

lemma pad_page_eq:
  "int (length data) \<le> ps \<Longrightarrow> pad_page ps data = data @ replicate (nat ps - length data) 0"
  by (simp add: pad_page_def)

lemma length_pad_page [simp]: "length (pad_page ps data) = nat ps"
  by (simp add: pad_page_def)

lemma node_bytes_leaf:
  "node_bytes (leaf items) = le32 (of_nat (length items)) @ le32 0 @ concat (map item_bytes items)"
  by (simp add: node_bytes_def leaf_def)

lemma parse_leaf_page:
  assumes "short_items items" "length items < 4294967296"
    and "int (length (node_bytes (leaf items))) < ps"
  shows "parse_node (pad_page ps (node_bytes (leaf items))) off
         = Some \<lparr>nd_items = items, nd_childrenOffsets = [], nd_offset = off, nd_elem = False\<rparr>"
proof -
  let ?pad = "replicate (nat ps - length (node_bytes (leaf items))) (0 :: byte)"
  have ne: "?pad \<noteq> []" using assms(3) by simp
  have page: "pad_page ps (node_bytes (leaf items))
              = le32 (of_nat (length items)) @ le32 0 @ concat (map item_bytes items) @ ?pad"
    using assms(3) by (simp add: pad_page_eq) (simp add: node_bytes_leaf)
  have n: "unat (of_nat (length items) :: 32 word) = length items"
    using assms(2) by (simp add: unat_of_nat)
  show ?thesis
    unfolding page parse_node_def
    by (simp only: take_field_le32 n read_items_bytes [OF assms(1) ne] option.case prod.case
          unsigned_0 read_children.simps)
qed

lemma write_at_Some:
  "0 \<le> off \<Longrightarrow> \<exists>f'. write_at f off bs = Some f'"
  by (simp add: write_at_def Let_def)

lemma read_write_same:
  assumes "write_at f off bs = Some f'"
  shows "read_at f' off (length bs) = Some bs"
proof -
  define g where "g = f @ replicate (nat off - length f) 0"
  from assms have off: "0 \<le> off"
    and f': "f' = take (nat off) g @ bs @ drop (nat off + length bs) g"
    by (auto simp: write_at_def Let_def g_def split: if_splits)
  have lg: "length (take (nat off) g) = nat off" by (simp add: g_def)
  have d: "drop (nat off) f' = bs @ drop (nat off + length bs) g"
    unfolding f' using lg by simp
  have "nat off + length bs \<le> length f'"
    unfolding f' using lg by simp
  then show ?thesis
    using off d by (simp add: read_at_def)
qed

lemma read_write_header:
  assumes "write_at f 0 bs = Some f'" "int (length bs) \<le> off"
    and "read_at f off n = Some page"
  shows "read_at f' off n = Some page"
proof -
  from assms(3) have len: "nat off + n \<le> length f" and pg: "page = take n (drop (nat off) f)"
    and off: "0 \<le> off"
    by (auto simp: read_at_def split: if_splits)
  from assms(1) have f': "f' = bs @ drop (length bs) f"
    by (simp add: write_at_def)
  have lb: "length bs \<le> nat off" using assms(2) by simp
  have "drop (nat off) f' = drop (nat off - length bs) (drop (length bs) f)"
    unfolding f' using lb by simp
  also have "\<dots> = drop (nat off) f" using lb by simp
  finally have d: "drop (nat off) f' = drop (nat off) f" .
  have "length f' = length f" unfolding f' using lb len by simp
  then show ?thesis
    using len off d pg by (simp add: read_at_def)
qed

lemma find_index_at:
  assumes "j < length items" "\<not> key > it_Key (items ! j)"
    and "\<forall>k. i \<le> k \<and> k < j \<longrightarrow> key > it_Key (items ! k)" "i \<le> j"
  shows "find_index key items i = j"
  using assms
proof (induction "j - i" arbitrary: i)
  case 0
  then show ?case by (simp add: find_index.simps)
next
  case (Suc d)
  then have "i < j" by simp
  with Suc.prems have "i < length items" "key > it_Key (items ! i)" by auto
  then have "find_index key items i = find_index key items (Suc i)"
    by (subst find_index.simps) simp
  also have "\<dots> = j"
    using Suc.hyps Suc.prems \<open>i < j\<close> by (intro Suc.hyps(1)) auto
  finally show ?case .
qed

lemma find_index_sorted:
  assumes "sorted_wrt (<) (keys_of items)" "j < length items"
  shows "find_index (it_Key (items ! j)) items 0 = j"
proof (rule find_index_at)
  show "j < length items" by fact
  show "\<not> it_Key (items ! j) > it_Key (items ! j)" by simp
  show "\<forall>k. 0 \<le> k \<and> k < j \<longrightarrow> it_Key (items ! j) > it_Key (items ! k)"
  proof (intro allI impI)
    fix k assume "0 \<le> k \<and> k < j"
    then have "keys_of items ! k < keys_of items ! j"
      using assms by (auto simp: sorted_wrt_iff_nth_less keys_of_def)
    then show "it_Key (items ! j) > it_Key (items ! k)"
      using assms(2) \<open>0 \<le> k \<and> k < j\<close> by (simp add: keys_of_def)
  qed
  show "0 \<le> j" by simp
qed

lemma find_index_absent:
  assumes "key \<notin> set (keys_of items)"
  shows "\<not> (find_index key items 0 < length items
            \<and> key = it_Key (items ! find_index key items 0))"
  using assms by (auto simp: keys_of_def)

lemma removed_key_absent:
  assumes "sorted_wrt (<) (keys_of items)" "j < length items"
  shows "it_Key (items ! j) \<notin> set (keys_of (take j items @ drop (Suc j) items))"
proof -
  have d: "distinct (keys_of items)"
    using assms(1) by (simp add: strict_sorted_iff)
  have e: "items = take j items @ items ! j # drop (Suc j) items"
    using assms(2) by (rule id_take_nth_drop)
  have "keys_of items = keys_of (take j items @ items ! j # drop (Suc j) items)"
    using e by (rule arg_cong)
  also have "\<dots> = keys_of (take j items) @ it_Key (items ! j) # keys_of (drop (Suc j) items)"
    by (simp add: keys_of_def)
  finally have "distinct (keys_of (take j items) @ it_Key (items ! j) # keys_of (drop (Suc j) items))"
    using d by simp
  then show ?thesis by (auto simp: keys_of_def)
qed

lemma node_bytes_leafy [simp]:
  "node_bytes \<lparr>nd_items = its, nd_childrenOffsets = [], nd_offset = off, nd_elem = e\<rparr>
   = node_bytes (leaf its)"
  by (simp add: node_bytes_def leaf_def)

lemma length_node_bytes_leaf:
  "length (node_bytes (leaf items)) = 8 + length (concat (map item_bytes items))"
  by (simp add: node_bytes_leaf)

lemma removed_short:
  assumes "short_items items"
  shows "short_items (take j items @ drop (Suc j) items)"
  using assms
  by (auto simp: short_items_def list_all_iff dest: in_set_takeD in_set_dropD)

subsection \<open>What a page that parses holds\<close>

lemma le_decode_bound: "le_decode bs < 256 ^ length bs"
proof (induction bs)
  case Nil
  then show ?case by simp
next
  case (Cons x bs)
  have "unat x < 256" using unsigned_less [of x, where 'a = nat] by simp
  then have "unat x + 256 * le_decode bs < 256 + 256 * le_decode bs" by simp
  also have "\<dots> = 256 * Suc (le_decode bs)" by simp
  also have "\<dots> \<le> 256 * 256 ^ length bs"
    using Cons.IH by (intro mult_le_mono2) simp
  finally show ?case by simp
qed

lemma take_field_bound:
  assumes "take_field n rest = Some (v, rest')"
  shows "v < 256 ^ n"
proof -
  from assms have n: "n \<le> length rest" and v: "v = le_decode (take n rest)"
    by (auto simp: take_field_def split: if_splits)
  have "le_decode (take n rest) < 256 ^ length (take n rest)" by (rule le_decode_bound)
  then show ?thesis using n v by simp
qed

lemma reader_read_length:
  assumes "reader_read n rest = Some (bs, rest')"
  shows "length bs = n"
  using assms by (auto simp: reader_read_def split: if_splits)

lemma length_string_of [simp]: "length (string_of bs) = length bs"
  by (simp add: string_of_def)

lemma read_items_short:
  assumes "read_items k rest = Some (items, rest')"
  shows "length items = k \<and> short_items items"
  using assms
proof (induction k arbitrary: rest items)
  case 0
  then show ?case by (simp add: short_items_def)
next
  case (Suc k)
  from Suc.prems obtain keyLen rest1 keyBytes rest2 valueLen rest3 valueBytes rest4 items0
    where kl: "take_field 2 rest = Some (keyLen, rest1)"
      and kb: "reader_read keyLen rest1 = Some (keyBytes, rest2)"
      and vl: "take_field 2 rest2 = Some (valueLen, rest3)"
      and vb: "reader_read valueLen rest3 = Some (valueBytes, rest4)"
      and rec: "read_items k rest4 = Some (items0, rest')"
      and items: "items = \<lparr>it_Key = string_of keyBytes, it_Value = string_of valueBytes\<rparr> # items0"
    by (auto split: option.splits)
  have "keyLen < 65536" "valueLen < 65536"
    using take_field_bound [OF kl] take_field_bound [OF vl] by simp_all
  then have "length keyBytes < 65536" "length valueBytes < 65536"
    using reader_read_length [OF kb] reader_read_length [OF vb] by simp_all
  then show ?case
    using Suc.IH [OF rec] items by (simp add: short_items_def)
qed

lemma parse_node_facts:
  assumes "parse_node page off = Some n"
  shows "short_items (nd_items n)" "length (nd_items n) < 4294967296"
    "nd_offset n = off" "nd_elem n = False" "8 \<le> length page"
proof -
  from assms obtain itemsCount rest1 childrenCount rest2 items rest3 children
    where ic: "take_field 4 page = Some (itemsCount, rest1)"
      and cc: "take_field 4 rest1 = Some (childrenCount, rest2)"
      and ri: "read_items itemsCount rest2 = Some (items, rest3)"
      and n: "n = \<lparr>nd_items = items, nd_childrenOffsets = children, nd_offset = off,
                    nd_elem = False\<rparr>"
    by (auto simp: parse_node_def split: option.splits)
  have "itemsCount < 4294967296" using take_field_bound [OF ic] by simp
  then show "short_items (nd_items n)" "length (nd_items n) < 4294967296"
    using read_items_short [OF ri] n by simp_all
  show "nd_offset n = off" "nd_elem n = False" using n by simp_all
  from ic cc show "8 \<le> length page"
    by (auto simp: take_field_def split: if_splits)
qed

lemma node_pageD:
  assumes "node_page f ps off = Some n"
  obtains page where "read_at f off (nat ps) = Some page" "parse_node page off = Some n"
    "0 < ps" "0 \<le> off" "nat off + nat ps \<le> length f"
proof -
  from assms obtain page where r: "read_at f off (nat ps) = Some page"
    and p: "parse_node page off = Some n"
    by (auto simp: node_page_def split: option.splits)
  from r have o: "0 \<le> off" "nat off + nat ps \<le> length f" and lp: "length page = nat ps"
    by (auto simp: read_at_def split: if_splits)
  have "8 \<le> length page" using p by (rule parse_node_facts)
  then have "0 < ps" using lp by simp
  then show ?thesis using that r p o by blast
qed

lemma leaf_node_eq:
  assumes "parse_node page off = Some n" "nd_childrenOffsets n = []"
  shows "n = \<lparr>nd_items = nd_items n, nd_childrenOffsets = [], nd_offset = off, nd_elem = False\<rparr>"
  using assms parse_node_facts(3,4) [OF assms(1)] by (cases n) simp

lemma length_item_bytes: "length (item_bytes it) = 4 + length (it_Key it) + length (it_Value it)"
  by (simp add: item_bytes_def)

lemma removed_size_strict:
  assumes "j < length items"
  shows "length (node_bytes (leaf (take j items @ drop (Suc j) items))) + 4
         \<le> length (node_bytes (leaf items))"
proof -
  have e: "items = take j items @ items ! j # drop (Suc j) items"
    using assms by (rule id_take_nth_drop)
  have "concat (map item_bytes items)
        = concat (map item_bytes (take j items @ items ! j # drop (Suc j) items))"
    using e by (rule arg_cong)
  then have "length (concat (map item_bytes items))
        = length (concat (map item_bytes (take j items))) + length (item_bytes (items ! j))
          + length (concat (map item_bytes (drop (Suc j) items)))"
    by simp
  then show ?thesis
    by (simp add: length_node_bytes_leaf length_item_bytes)
qed

subsection \<open>Pages that a write leaves as they were\<close>

lemma read_write_other:
  assumes w: "write_at f off1 bs = Some f'" and inside: "nat off1 + length bs \<le> length f"
    and o2: "0 \<le> off2"
    and apart: "nat off2 + n \<le> nat off1 \<or> nat off1 + length bs \<le> nat off2"
  shows "read_at f' off2 n = read_at f off2 n"
proof -
  let ?a = "nat off1"
  let ?o = "nat off2"
  from w inside have f': "f' = take ?a f @ bs @ drop (?a + length bs) f"
    by (auto simp: write_at_def Let_def split: if_splits)
  have len: "length f' = length f" unfolding f' using inside by simp
  have "take n (drop ?o f') = take n (drop ?o f)" if "?o + n \<le> length f"
    using apart
  proof
    assume b: "?o + n \<le> ?a"
    have "take n (drop ?o f') = take n (drop ?o (take ?a f))"
      unfolding f' using b inside by simp
    also have "\<dots> = take n (drop ?o f)"
    proof -
      have "n \<le> ?a - ?o" using b by simp
      then show ?thesis by (simp add: drop_take min_def)
    qed
    finally show ?thesis .
  next
    assume a: "?a + length bs \<le> ?o"
    have "drop ?o f' = drop (?o - (?a + length bs)) (drop (?a + length bs) f)"
      unfolding f' using a inside by simp
    also have "\<dots> = drop ?o f" using a by simp
    finally show ?thesis by simp
  qed
  then show ?thesis
    using len o2 by (simp add: read_at_def)
qed

lemma aligned_apart:
  fixes off1 off2 ps :: int
  assumes "0 < ps" "ps dvd off1" "ps dvd off2" "off1 \<noteq> off2"
  shows "off2 + ps \<le> off1 \<or> off1 + ps \<le> off2"
proof -
  from assms obtain k1 k2 where k: "off1 = ps * k1" "off2 = ps * k2"
    by (auto elim!: dvdE)
  with assms(4) have "k1 \<noteq> k2" by auto
  then consider "k2 + 1 \<le> k1" | "k1 + 1 \<le> k2" by linarith
  then show ?thesis
  proof cases
    case 1
    then have "ps * (k2 + 1) \<le> ps * k1" using assms(1) by (intro mult_left_mono) simp_all
    then show ?thesis using k by (simp add: algebra_simps)
  next
    case 2
    then have "ps * (k1 + 1) \<le> ps * k2" using assms(1) by (intro mult_left_mono) simp_all
    then show ?thesis using k by (simp add: algebra_simps)
  qed
qed

lemma node_page_other:
  assumes w: "write_at f off1 bs = Some f'" and l: "length bs = nat ps"
    and p1: "node_page f ps off1 = Some n1"
    and al: "ps dvd off1" "ps dvd off2" "off1 \<noteq> off2" "0 \<le> off2"
  shows "node_page f' ps off2 = node_page f ps off2"
proof -
  from p1 obtain page where ps: "0 < ps" and o1: "0 \<le> off1"
    and inside: "nat off1 + nat ps \<le> length f"
    by (rule node_pageD)
  have "off2 + ps \<le> off1 \<or> off1 + ps \<le> off2"
    using ps al(1,2,3) by (rule aligned_apart)
  then have apart: "nat off2 + nat ps \<le> nat off1 \<or> nat off1 + length bs \<le> nat off2"
    using o1 al(4) ps l by auto
  have inside': "nat off1 + length bs \<le> length f" using inside l by simp
  have "read_at f' off2 (nat ps) = read_at f off2 (nat ps)"
    using w inside' al(4) apart by (rule read_write_other)
  then show ?thesis by (simp add: node_page_def)
qed

lemma node_page_header:
  assumes w: "write_at f 0 (pad_page ps hdr) = Some f'" and o: "ps \<le> off"
    and p: "node_page f ps off = Some n"
  shows "node_page f' ps off = Some n"
proof -
  from p obtain page where r: "read_at f off (nat ps) = Some page"
    and pp: "parse_node page off = Some n" and ps: "0 < ps"
    by (rule node_pageD)
  have "read_at f' off (nat ps) = Some page"
    using w _ r by (rule read_write_header) (use o ps in simp)
  then show ?thesis using pp by (simp add: node_page_def)
qed

subsection \<open>The search path in the file\<close>

lemma search_path_0:
  "search_path f ps t m 0 off key items \<longleftrightarrow>
     ps \<le> off \<and> ps dvd off
     \<and> (\<exists>n. node_page f ps off = Some n \<and> nd_childrenOffsets n = [] \<and> nd_items n = items
              \<and> int (length (node_bytes n)) \<le> ps)"
  by (simp add: search_path.simps split: option.splits)

lemma search_path_Suc:
  "search_path f ps t m (Suc d) off key items \<longleftrightarrow>
     ps \<le> off \<and> ps dvd off
     \<and> (\<exists>n c. node_page f ps off = Some n \<and> nd_childrenOffsets n \<noteq> [] \<and> nd_items n \<noteq> []
          \<and> \<not> (find_index key (nd_items n) 0 < length (nd_items n)
                  \<and> key = it_Key (nd_items n ! find_index key (nd_items n) 0))
          \<and> find_index key (nd_items n) 0 < length (nd_childrenOffsets n)
          \<and> node_page f ps (nd_childrenOffsets n ! find_index key (nd_items n) 0) = Some c
          \<and> (if d = 0 then m else t) \<le> int (length (nd_items c))
          \<and> search_path f ps t m d (nd_childrenOffsets n ! find_index key (nd_items n) 0)
                key items)"
  by (auto simp: search_path.simps Let_def split: option.splits)

lemma search_path_SucE:
  assumes "search_path f ps t m (Suc d) off key items"
  obtains n c where "ps \<le> off" "ps dvd off" "node_page f ps off = Some n"
    "nd_childrenOffsets n \<noteq> []" "nd_items n \<noteq> []"
    "\<not> (find_index key (nd_items n) 0 < length (nd_items n)
        \<and> key = it_Key (nd_items n ! find_index key (nd_items n) 0))"
    "find_index key (nd_items n) 0 < length (nd_childrenOffsets n)"
    "node_page f ps (nd_childrenOffsets n ! find_index key (nd_items n) 0) = Some c"
    "(if d = 0 then m else t) \<le> int (length (nd_items c))"
    "search_path f ps t m d (nd_childrenOffsets n ! find_index key (nd_items n) 0) key items"
  using assms unfolding search_path_Suc by (elim conjE exE) (rule that; assumption)

lemma search_path_offset:
  assumes "search_path f ps t m d off key items"
  shows "ps \<le> off" "ps dvd off" "0 \<le> off" "0 < ps"
proof -
  from assms obtain n where o: "ps \<le> off" "ps dvd off" and n: "node_page f ps off = Some n"
    by (cases d) (auto simp only: search_path_0 search_path_Suc)
  show "ps \<le> off" "ps dvd off" by fact+
  show "0 \<le> off" "0 < ps" using n by (auto elim: node_pageD)
qed

lemma search_path_leaf:
  assumes "search_path f ps t m d off key items"
  shows "search_path f ps t m 0 (path_leaf f ps d off key) key items"
  using assms
proof (induction d arbitrary: off)
  case 0
  then show ?case by simp
next
  case (Suc d)
  from Suc.prems obtain n where n: "node_page f ps off = Some n"
    and rest: "search_path f ps t m d (nd_childrenOffsets n ! find_index key (nd_items n) 0)
                key items"
    by (rule search_path_SucE)
  show ?case
    using Suc.IH [OF rest] n by (simp del: search_path.simps)
qed

lemma search_path_leafD:
  assumes "search_path f ps t m 0 off key items"
  shows "ps \<le> off" "ps dvd off"
    "node_page f ps off
     = Some \<lparr>nd_items = items, nd_childrenOffsets = [], nd_offset = off, nd_elem = False\<rparr>"
    "int (length (node_bytes (leaf items))) \<le> ps"
    "short_items items" "length items < 4294967296"
proof -
  from assms obtain n where o: "ps \<le> off" "ps dvd off"
    and n: "node_page f ps off = Some n" "nd_childrenOffsets n = []" "nd_items n = items"
      "int (length (node_bytes n)) \<le> ps"
    unfolding search_path_0 by (elim conjE exE)
  from n(1) obtain page where p: "parse_node page off = Some n" by (rule node_pageD)
  have e: "n = \<lparr>nd_items = items, nd_childrenOffsets = [], nd_offset = off, nd_elem = False\<rparr>"
    using leaf_node_eq [OF p n(2)] n(3) by simp
  show "ps \<le> off" "ps dvd off" by fact+
  show "node_page f ps off
     = Some \<lparr>nd_items = items, nd_childrenOffsets = [], nd_offset = off, nd_elem = False\<rparr>"
    using n(1) e by simp
  have "node_bytes n = node_bytes (leaf items)" by (subst e) simp
  then show "int (length (node_bytes (leaf items))) \<le> ps"
    using n(4) by simp
  show "short_items items" "length items < 4294967296"
    using parse_node_facts(1,2) [OF p] n(3) by simp_all
qed

lemma search_path_inner_not_leaf:
  assumes "search_path f ps t m (Suc d) off key items"
  shows "off \<noteq> path_leaf f ps (Suc d) off key"
proof
  assume e: "off = path_leaf f ps (Suc d) off key"
  have "search_path f ps t m 0 (path_leaf f ps (Suc d) off key) key items"
    using assms by (rule search_path_leaf)
  then have "search_path f ps t m 0 off key items" using e by simp
  then have "\<exists>n. node_page f ps off = Some n \<and> nd_childrenOffsets n = []"
    unfolding search_path_0 by blast
  moreover from assms have "\<exists>n. node_page f ps off = Some n \<and> nd_childrenOffsets n \<noteq> []"
    by (rule search_path_SucE) blast
  ultimately show False by auto
qed

text \<open>The page that \<open>writeNodeToDisk\<close> writes for the leaf without its item \<open>j\<close>.\<close>

lemma leaf_page_rewritten:
  assumes p: "search_path f ps t m 0 off key items" and j: "j < length items"
    and w: "write_at f off (pad_page ps (node_bytes (leaf (take j items @ drop (Suc j) items))))
            = Some f'"
  shows "node_page f' ps off
         = Some \<lparr>nd_items = take j items @ drop (Suc j) items, nd_childrenOffsets = [],
                 nd_offset = off, nd_elem = False\<rparr>"
    and "int (length (node_bytes (leaf (take j items @ drop (Suc j) items)))) < ps"
proof -
  let ?items' = "take j items @ drop (Suc j) items"
  note l = search_path_leafD [OF p]
  show size': "int (length (node_bytes (leaf ?items'))) < ps"
    using removed_size_strict [OF j] l(4) by linarith
  have short': "short_items ?items'" using l(5) by (rule removed_short)
  have len': "length ?items' < 4294967296" using l(6) j by simp
  have r: "read_at f' off (nat ps) = Some (pad_page ps (node_bytes (leaf ?items')))"
    using read_write_same [OF w] by simp
  show "node_page f' ps off
         = Some \<lparr>nd_items = ?items', nd_childrenOffsets = [], nd_offset = off, nd_elem = False\<rparr>"
    using r parse_leaf_page [OF short' len' size'] by (simp add: node_page_def)
qed

lemma search_path_rewritten:
  assumes p: "search_path f ps t m d off key items" and j: "j < length items"
    and w: "write_at f (path_leaf f ps d off key)
              (pad_page ps (node_bytes (leaf (take j items @ drop (Suc j) items)))) = Some f'"
  shows "search_path f' ps t (m - 1) d off key (take j items @ drop (Suc j) items)"
  using p w
proof (induction d arbitrary: off)
  case 0
  note l = search_path_leafD [OF "0.prems"(1)]
  from "0.prems"(2) have w0: "write_at f off
      (pad_page ps (node_bytes (leaf (take j items @ drop (Suc j) items)))) = Some f'"
    by simp
  note r = leaf_page_rewritten [OF "0.prems"(1) j w0]
  have "int (length (node_bytes \<lparr>nd_items = take j items @ drop (Suc j) items,
          nd_childrenOffsets = [], nd_offset = off, nd_elem = False\<rparr>)) \<le> ps"
    using r(2) by simp
  then show ?case
    unfolding search_path_0 using l(1,2) r(1) by simp
next
  case (Suc d)
  let ?items' = "take j items @ drop (Suc j) items"
  let ?loff = "path_leaf f ps (Suc d) off key"
  from Suc.prems(1) obtain n c where o: "ps \<le> off" "ps dvd off"
    and n: "node_page f ps off = Some n" "nd_childrenOffsets n \<noteq> []" "nd_items n \<noteq> []"
    and nf: "\<not> (find_index key (nd_items n) 0 < length (nd_items n)
        \<and> key = it_Key (nd_items n ! find_index key (nd_items n) 0))"
    and il: "find_index key (nd_items n) 0 < length (nd_childrenOffsets n)"
    and c: "node_page f ps (nd_childrenOffsets n ! find_index key (nd_items n) 0) = Some c"
       "(if d = 0 then m else t) \<le> int (length (nd_items c))"
    and rest: "search_path f ps t m d (nd_childrenOffsets n ! find_index key (nd_items n) 0)
                 key items"
    by (rule search_path_SucE)
  define child where "child = nd_childrenOffsets n ! find_index key (nd_items n) 0"
  note c = c [folded child_def] and rest = rest [folded child_def]
  have loff: "?loff = path_leaf f ps d child key"
    using n(1) by (simp add: child_def)
  note lf = search_path_leafD [OF search_path_leaf [OF Suc.prems(1)]]
  from Suc.prems(2) have w': "write_at f (path_leaf f ps d child key)
      (pad_page ps (node_bytes (leaf ?items'))) = Some f'"
    unfolding loff .
  have ne: "off \<noteq> ?loff" using Suc.prems(1) by (rule search_path_inner_not_leaf)
  have o0: "0 \<le> off" using Suc.prems(1) by (rule search_path_offset)
  have same: "node_page f' ps off = Some n"
    using node_page_other [OF Suc.prems(2) _ lf(3) lf(2) o(2) ne [symmetric] o0] n(1) by simp
  have rest': "search_path f' ps t (m - 1) d child key ?items'"
    using rest w' by (rule Suc.IH)
  have c': "\<exists>c'. node_page f' ps child = Some c'
                 \<and> (if d = 0 then m - 1 else t) \<le> int (length (nd_items c'))"
  proof (cases d)
    case 0
    have "search_path f ps t m 0 child key items" using rest 0 by simp
    note cn = search_path_leafD(3) [OF this]
    have "int (length (nd_items c)) = int (length items)" using cn c(1) by auto
    then have "m - 1 \<le> int (length ?items')" using c(2) 0 j by simp
    moreover have "search_path f' ps t (m - 1) 0 child key ?items'" using rest' 0 by simp
    then have "node_page f' ps child
         = Some \<lparr>nd_items = ?items', nd_childrenOffsets = [], nd_offset = child, nd_elem = False\<rparr>"
      by (rule search_path_leafD(3))
    ultimately show ?thesis using 0 by simp
  next
    case (Suc d')
    have cne: "child \<noteq> path_leaf f ps d child key"
      using rest unfolding Suc by (rule search_path_inner_not_leaf)
    have ca: "ps dvd child" "0 \<le> child"
      using search_path_offset [OF rest] by simp_all
    have "node_page f' ps child = Some c"
      using node_page_other [OF w' _ _ _ ca(1) cne [symmetric] ca(2)] lf(2,3) loff c(1) by simp
    then show ?thesis using c(2) Suc by simp
  qed
  then obtain c' where c': "node_page f' ps child = Some c'"
      "(if d = 0 then m - 1 else t) \<le> int (length (nd_items c'))"
    by blast
  show ?case
    unfolding search_path_Suc
    using o same n(2,3) nf il c' [unfolded child_def] rest' [unfolded child_def] by blast
qed

lemma search_path_header:
  assumes "search_path f ps t m d off key items" "write_at f 0 (pad_page ps hdr) = Some f'"
  shows "search_path f' ps t m d off key items"
  using assms
proof (induction d arbitrary: off)
  case 0
  then show ?case
    unfolding search_path_0 using node_page_header by blast
next
  case (Suc d)
  from Suc.prems(1) obtain n c where o: "ps \<le> off" "ps dvd off"
    and n: "node_page f ps off = Some n" "nd_childrenOffsets n \<noteq> []" "nd_items n \<noteq> []"
    and nf: "\<not> (find_index key (nd_items n) 0 < length (nd_items n)
        \<and> key = it_Key (nd_items n ! find_index key (nd_items n) 0))"
    and il: "find_index key (nd_items n) 0 < length (nd_childrenOffsets n)"
    and c: "node_page f ps (nd_childrenOffsets n ! find_index key (nd_items n) 0) = Some c"
       "(if d = 0 then m else t) \<le> int (length (nd_items c))"
    and rest: "search_path f ps t m d (nd_childrenOffsets n ! find_index key (nd_items n) 0)
                 key items"
    by (rule search_path_SucE)
  have co: "ps \<le> nd_childrenOffsets n ! find_index key (nd_items n) 0"
    using rest by (rule search_path_offset)
  have same: "node_page f' ps off = Some n"
    "node_page f' ps (nd_childrenOffsets n ! find_index key (nd_items n) 0) = Some c"
    using node_page_header [OF Suc.prems(2)] o(1) n(1) co c(1) by blast+
  have rest': "search_path f' ps t m d (nd_childrenOffsets n ! find_index key (nd_items n) 0)
                 key items"
    using rest Suc.prems(2) by (rule Suc.IH)
  show ?case
    unfolding search_path_Suc
    using o same n(2,3) nf il c(2) rest' by blast
qed

subsection \<open>The operations along the search path, node cache disabled\<close>

lemma readNode_disabled:
  assumes "bt_cacheSize b \<le> 0" "node_page (bt_file b) (bt_pageSize b) off = Some n"
  shows "readNode off b
         = (Inr (bt_nextAddr b),
            b\<lparr>bt_heap := (bt_heap b)(bt_nextAddr b \<mapsto> n), bt_nextAddr := Suc (bt_nextAddr b)\<rparr>)"
  using assms
  by (auto simp: node_page_def readNode_def readNodeFromDisk_def bt_bind_def bt_get_def
      bt_return_def new_node_def split: option.splits)

lemma searchValue_path_absent:
  assumes "bt_cacheSize b \<le> 0"
    and "search_path (bt_file b) (bt_pageSize b) t m d off key items"
    and "key \<notin> set (keys_of items)" and "d < fuel"
  shows "fst (searchValue fuel off key b) = Inl ErrKeyNotFoundText"
  using assms
proof (induction d arbitrary: off b fuel)
  case 0
  from "0.prems"(4) obtain fuel' where fuel: "fuel = Suc fuel'" by (cases fuel) simp_all
  note rn = readNode_disabled [OF "0.prems"(1) search_path_leafD(3) [OF "0.prems"(2)]]
  note fi = find_index_absent [OF "0.prems"(3)]
  show ?case
    unfolding fuel
    by (simp add: bt_bind_def rn node_at_def Let_def fi isLeaf_def bt_fail_def)
next
  case (Suc d)
  from Suc.prems(4) obtain fuel' where fuel: "fuel = Suc fuel'" and d: "d < fuel'"
    by (cases fuel) simp_all
  from Suc.prems(2) obtain n c where
        n: "node_page (bt_file b) (bt_pageSize b) off = Some n" "nd_childrenOffsets n \<noteq> []"
    and nf: "\<not> (find_index key (nd_items n) 0 < length (nd_items n)
        \<and> key = it_Key (nd_items n ! find_index key (nd_items n) 0))"
    and il: "find_index key (nd_items n) 0 < length (nd_childrenOffsets n)"
    and rest: "search_path (bt_file b) (bt_pageSize b) t m d
                 (nd_childrenOffsets n ! find_index key (nd_items n) 0) key items"
    by (rule search_path_SucE)
  note rn = readNode_disabled [OF Suc.prems(1) n(1)]
  let ?b1 = "b\<lparr>bt_heap := (bt_heap b)(bt_nextAddr b \<mapsto> n), bt_nextAddr := Suc (bt_nextAddr b)\<rparr>"
  have step: "searchValue (Suc fuel') off key b
              = searchValue fuel' (nd_childrenOffsets n ! find_index key (nd_items n) 0) key ?b1"
    using n(2) il
    by (simp add: bt_bind_def rn node_at_def Let_def nf isLeaf_def index_at_def bt_return_def)
  have "fst (searchValue fuel' (nd_childrenOffsets n ! find_index key (nd_items n) 0) key ?b1)
        = Inl ErrKeyNotFoundText"
    using Suc.prems(1,3) rest d by (intro Suc.IH) simp_all
  then show ?case unfolding fuel step .
qed

lemma deleteFromNode_path_absent:
  assumes "bt_cacheSize b \<le> 0"
    and "search_path (bt_file b) (bt_pageSize b) (bt_Degree b) m d off key items"
    and "bt_Degree b \<le> m"
    and "key \<notin> set (keys_of items)" and "d < fuel"
  shows "fst (deleteFromNode fuel off key b) = Inl ErrKeyNotFoundText"
  using assms
proof (induction d arbitrary: off b fuel)
  case 0
  from "0.prems"(5) obtain fuel' where fuel: "fuel = Suc fuel'" by (cases fuel) simp_all
  note rn = readNode_disabled [OF "0.prems"(1) search_path_leafD(3) [OF "0.prems"(2)]]
  note fi = find_index_absent [OF "0.prems"(4)]
  show ?case
    unfolding fuel
    by (simp add: bt_bind_def bt_get_def rn node_at_def Let_def fi isLeaf_def bt_fail_def)
next
  case (Suc d)
  from Suc.prems(5) obtain fuel' where fuel: "fuel = Suc fuel'" and d: "d < fuel'"
    by (cases fuel) simp_all
  from Suc.prems(2) obtain n c where
        n: "node_page (bt_file b) (bt_pageSize b) off = Some n" "nd_childrenOffsets n \<noteq> []"
    and nf: "\<not> (find_index key (nd_items n) 0 < length (nd_items n)
        \<and> key = it_Key (nd_items n ! find_index key (nd_items n) 0))"
    and il: "find_index key (nd_items n) 0 < length (nd_childrenOffsets n)"
    and c: "node_page (bt_file b) (bt_pageSize b)
              (nd_childrenOffsets n ! find_index key (nd_items n) 0) = Some c"
       "(if d = 0 then m else bt_Degree b) \<le> int (length (nd_items c))"
    and rest: "search_path (bt_file b) (bt_pageSize b) (bt_Degree b) m d
                 (nd_childrenOffsets n ! find_index key (nd_items n) 0) key items"
    by (rule search_path_SucE)
  have full: "\<not> int (length (nd_items c)) < bt_Degree b"
    using c(2) Suc.prems(3) by (simp split: if_splits)
  note rn = readNode_disabled [OF Suc.prems(1) n(1)]
  let ?b1 = "b\<lparr>bt_heap := (bt_heap b)(bt_nextAddr b \<mapsto> n), bt_nextAddr := Suc (bt_nextAddr b)\<rparr>"
  have rn2: "readNode (nd_childrenOffsets n ! find_index key (nd_items n) 0) ?b1
         = (Inr (bt_nextAddr ?b1),
            ?b1\<lparr>bt_heap := (bt_heap ?b1)(bt_nextAddr ?b1 \<mapsto> c),
                 bt_nextAddr := Suc (bt_nextAddr ?b1)\<rparr>)"
    using Suc.prems(1) c(1) by (intro readNode_disabled) simp_all
  let ?b2 = "?b1\<lparr>bt_heap := (bt_heap ?b1)(bt_nextAddr ?b1 \<mapsto> c),
                 bt_nextAddr := Suc (bt_nextAddr ?b1)\<rparr>"
  have step: "deleteFromNode (Suc fuel') off key b
              = deleteFromNode fuel' (nd_childrenOffsets n ! find_index key (nd_items n) 0) key ?b2"
    using n(2) il full
    by (simp add: bt_bind_def bt_get_def rn node_at_def Let_def nf isLeaf_def index_at_def
        bt_return_def rn2 [simplified])
  have "fst (deleteFromNode fuel' (nd_childrenOffsets n ! find_index key (nd_items n) 0) key ?b2)
        = Inl ErrKeyNotFoundText"
    using Suc.prems(1,3,4) rest d by (intro Suc.IH) simp_all
  then show ?case unfolding fuel step .
qed

lemma deleteFromNode_path_found:
  assumes "bt_cacheSize b \<le> 0"
    and "search_path (bt_file b) (bt_pageSize b) (bt_Degree b) m d off key items"
    and "bt_Degree b \<le> m"
    and "sorted_wrt (<) (keys_of items)" and "j < length items" and "key = it_Key (items ! j)"
    and "write_at (bt_file b) (path_leaf (bt_file b) (bt_pageSize b) d off key)
           (pad_page (bt_pageSize b) (node_bytes (leaf (take j items @ drop (Suc j) items))))
         = Some f'"
    and "d < fuel"
  shows "fst (deleteFromNode fuel off key b) = Inr ()
         \<and> bt_file (snd (deleteFromNode fuel off key b)) = f'
         \<and> same_config b (snd (deleteFromNode fuel off key b))"
  using assms
proof (induction d arbitrary: off b fuel)
  case 0
  from "0.prems"(8) obtain fuel' where fuel: "fuel = Suc fuel'" by (cases fuel) simp_all
  note rn = readNode_disabled [OF "0.prems"(1) search_path_leafD(3) [OF "0.prems"(2)]]
  have fi: "find_index (it_Key (items ! j)) items 0 = j"
    using "0.prems"(4,5) by (rule find_index_sorted)
  from "0.prems"(7) have w0: "write_at (bt_file b) off
      (pad_page (bt_pageSize b) (node_bytes (leaf (take j items @ drop (Suc j) items))))
      = Some f'"
    by simp
  note size' = leaf_page_rewritten(2) [OF "0.prems"(2,5) w0]
  show ?case
    unfolding fuel
    using "0.prems"(1,5,6) size' w0
    by (simp add: bt_bind_def bt_get_def bt_modify_def bt_return_def bt_fail_def rn node_at_def
        Let_def fi isLeaf_def update_node_def writeNode_def writeNodeToDisk_def same_config_def)
next
  case (Suc d)
  from Suc.prems(8) obtain fuel' where fuel: "fuel = Suc fuel'" and d: "d < fuel'"
    by (cases fuel) simp_all
  from Suc.prems(2) obtain n c where
        n: "node_page (bt_file b) (bt_pageSize b) off = Some n" "nd_childrenOffsets n \<noteq> []"
    and nf: "\<not> (find_index key (nd_items n) 0 < length (nd_items n)
        \<and> key = it_Key (nd_items n ! find_index key (nd_items n) 0))"
    and il: "find_index key (nd_items n) 0 < length (nd_childrenOffsets n)"
    and c: "node_page (bt_file b) (bt_pageSize b)
              (nd_childrenOffsets n ! find_index key (nd_items n) 0) = Some c"
       "(if d = 0 then m else bt_Degree b) \<le> int (length (nd_items c))"
    and rest: "search_path (bt_file b) (bt_pageSize b) (bt_Degree b) m d
                 (nd_childrenOffsets n ! find_index key (nd_items n) 0) key items"
    by (rule search_path_SucE)
  have full: "\<not> int (length (nd_items c)) < bt_Degree b"
    using c(2) Suc.prems(3) by (simp split: if_splits)
  note rn = readNode_disabled [OF Suc.prems(1) n(1)]
  let ?child = "nd_childrenOffsets n ! find_index key (nd_items n) 0"
  let ?b1 = "b\<lparr>bt_heap := (bt_heap b)(bt_nextAddr b \<mapsto> n), bt_nextAddr := Suc (bt_nextAddr b)\<rparr>"
  have rn2: "readNode ?child ?b1
         = (Inr (bt_nextAddr ?b1),
            ?b1\<lparr>bt_heap := (bt_heap ?b1)(bt_nextAddr ?b1 \<mapsto> c),
                 bt_nextAddr := Suc (bt_nextAddr ?b1)\<rparr>)"
    using Suc.prems(1) c(1) by (intro readNode_disabled) simp_all
  let ?b2 = "?b1\<lparr>bt_heap := (bt_heap ?b1)(bt_nextAddr ?b1 \<mapsto> c),
                 bt_nextAddr := Suc (bt_nextAddr ?b1)\<rparr>"
  have step: "deleteFromNode (Suc fuel') off key b = deleteFromNode fuel' ?child key ?b2"
    using n(2) il full
    by (simp add: bt_bind_def bt_get_def rn node_at_def Let_def nf isLeaf_def index_at_def
        bt_return_def rn2 [simplified])
  have w': "write_at (bt_file ?b2) (path_leaf (bt_file ?b2) (bt_pageSize ?b2) d ?child key)
           (pad_page (bt_pageSize ?b2) (node_bytes (leaf (take j items @ drop (Suc j) items))))
         = Some f'"
    using Suc.prems(7) n(1) by simp
  have "fst (deleteFromNode fuel' ?child key ?b2) = Inr ()
         \<and> bt_file (snd (deleteFromNode fuel' ?child key ?b2)) = f'
         \<and> same_config ?b2 (snd (deleteFromNode fuel' ?child key ?b2))"
    using Suc.prems(1,3,4,5,6) rest d w' by (intro Suc.IH) simp_all
  then show ?case unfolding fuel step by (simp add: same_config_def)
qed

lemma Get_path_absent:
  assumes "bt_cacheSize b \<le> 0"
    and "search_path (bt_file b) (bt_pageSize b) t m d (bt_RootOffset b) key items"
    and "key \<notin> set (keys_of items)" and "d < fuel"
  shows "fst (Get fuel key b)
         = (if bt_Length b = 0 then Inl ErrKeyNotFoundPort else Inl ErrKeyNotFoundText)"
  using searchValue_path_absent [OF assms]
  by (simp add: Get_def bt_bind_def bt_get_def bt_fail_def)

lemma Delete_path_absent:
  assumes "bt_cacheSize b \<le> 0"
    and "search_path (bt_file b) (bt_pageSize b) (bt_Degree b) m d (bt_RootOffset b) key items"
    and "bt_Degree b \<le> m"
    and "key \<notin> set (keys_of items)" and "d < fuel"
  shows "fst (Delete fuel key b)
         = (if bt_Length b = 0 then Inl ErrKeyNotFoundPort else Inl ErrKeyNotFoundText)"
proof -
  obtain b1 where "deleteFromNode fuel (bt_RootOffset b) key b = (Inl ErrKeyNotFoundText, b1)"
    using deleteFromNode_path_absent [OF assms]
    by (cases "deleteFromNode fuel (bt_RootOffset b) key b") simp
  then show ?thesis
    by (simp add: Delete_def bt_bind_def bt_get_def bt_fail_def)
qed

lemma Delete_path_found:
  assumes c: "bt_cacheSize b \<le> 0" and l: "bt_Length b \<noteq> 0"
    and p: "search_path (bt_file b) (bt_pageSize b) (bt_Degree b) (bt_Degree b + 1) d
              (bt_RootOffset b) key items"
    and s: "sorted_wrt (<) (keys_of items)" and j: "j < length items"
    and key: "key = it_Key (items ! j)" and fu: "d < fuel"
  shows "fst (Delete fuel key b) = Inr ()
    \<and> bt_Length (snd (Delete fuel key b)) = bt_Length b - 1
    \<and> bt_cacheSize (snd (Delete fuel key b)) = bt_cacheSize b
    \<and> bt_Degree (snd (Delete fuel key b)) = bt_Degree b
    \<and> bt_pageSize (snd (Delete fuel key b)) = bt_pageSize b
    \<and> bt_RootOffset (snd (Delete fuel key b)) = bt_RootOffset b
    \<and> search_path (bt_file (snd (Delete fuel key b))) (bt_pageSize b) (bt_Degree b)
         (bt_Degree b) d (bt_RootOffset b) key (take j items @ drop (Suc j) items)"
proof -
  let ?items' = "take j items @ drop (Suc j) items"
  let ?root = "bt_RootOffset b"
  let ?ps = "bt_pageSize b"
  let ?loff = "path_leaf (bt_file b) ?ps d ?root key"
  have "0 \<le> ?loff" using search_path_offset(3) [OF search_path_leaf [OF p]] .
  then obtain f1 where w1: "write_at (bt_file b) ?loff (pad_page ?ps (node_bytes (leaf ?items')))
      = Some f1"
    using write_at_Some by blast
  have m: "bt_Degree b \<le> bt_Degree b + 1" by simp
  note dfn = deleteFromNode_path_found [OF c p m s j key w1 fu]
  obtain b1 where b1: "deleteFromNode fuel ?root key b = (Inr (), b1)"
    using dfn by (cases "deleteFromNode fuel ?root key b") simp
  have f1: "bt_file b1 = f1" and cfg: "bt_pageSize b1 = ?ps" "bt_Degree b1 = bt_Degree b"
      "bt_cacheSize b1 = bt_cacheSize b" "bt_Length b1 = bt_Length b" "bt_RootOffset b1 = ?root"
    using dfn b1 by (simp_all add: same_config_def)
  have p1: "search_path f1 ?ps (bt_Degree b) (bt_Degree b) d ?root key ?items'"
    using search_path_rewritten [OF p j w1] by simp
  obtain r where r: "node_page f1 ?ps ?root = Some r"
      "\<not> (nd_items r = [] \<and> nd_childrenOffsets r \<noteq> [])"
  proof (cases d)
    case 0
    with p1 have "search_path f1 ?ps (bt_Degree b) (bt_Degree b) 0 ?root key ?items'" by simp
    then obtain n where "node_page f1 ?ps ?root = Some n" "nd_childrenOffsets n = []"
      unfolding search_path_0 by (elim conjE exE)
    then show ?thesis using that by simp
  next
    case (Suc d')
    with p1 have "search_path f1 ?ps (bt_Degree b) (bt_Degree b) (Suc d') ?root key ?items'"
      by simp
    then obtain n where "node_page f1 ?ps ?root = Some n" "nd_items n \<noteq> []"
      by (rule search_path_SucE)
    then show ?thesis using that by simp
  qed
  have rn: "readNode ?root b1
         = (Inr (bt_nextAddr b1),
            b1\<lparr>bt_heap := (bt_heap b1)(bt_nextAddr b1 \<mapsto> r), bt_nextAddr := Suc (bt_nextAddr b1)\<rparr>)"
    using c r(1) f1 cfg by (intro readNode_disabled) simp_all
  obtain f2 where w2: "write_at f1 0
      (pad_page ?ps (le64 (of_int ?root) @ le32 (of_int (bt_Length b - 1)))) = Some f2"
    using write_at_Some [of 0] by blast
  have p2: "search_path f2 ?ps (bt_Degree b) (bt_Degree b) d ?root key ?items'"
    using p1 w2 by (rule search_path_header)
  show ?thesis
    using l w2 f1 cfg p2
    by (simp add: Delete_def bt_bind_def bt_get_def bt_modify_def bt_return_def bt_fail_def
        b1 rn node_at_def isLeaf_def saveHeader_def Let_def r(2))
qed

lemma btree_delete_path:
  assumes c: "bt_cacheSize b \<le> 0" and l: "bt_Length b \<noteq> 0"
    and p: "search_path (bt_file b) (bt_pageSize b) (bt_Degree b) (bt_Degree b + 1) d
              (bt_RootOffset b) key items"
    and s: "sorted_wrt (<) (keys_of items)" and k: "key \<in> set (keys_of items)"
    and fu: "d < fuel"
  shows "fst (Delete fuel key b) = Inr ()"
    and "fst (Get fuel key (snd (Delete fuel key b)))
         = (if bt_Length b = 1 then Inl ErrKeyNotFoundPort else Inl ErrKeyNotFoundText)"
    and "fst (Delete fuel key (snd (Delete fuel key b)))
         = (if bt_Length b = 1 then Inl ErrKeyNotFoundPort else Inl ErrKeyNotFoundText)"
proof -
  from k obtain j where j: "j < length items" and key: "key = it_Key (items ! j)"
    by (auto simp: keys_of_def in_set_conv_nth)
  let ?b' = "snd (Delete fuel key b)"
  let ?items' = "take j items @ drop (Suc j) items"
  note d = Delete_path_found [OF c l p s j key fu]
  have ok: "fst (Delete fuel key b) = Inr ()" and len: "bt_Length ?b' = bt_Length b - 1"
    and c': "bt_cacheSize ?b' \<le> 0"
    and p': "search_path (bt_file ?b') (bt_pageSize ?b') (bt_Degree ?b') (bt_Degree ?b') d
               (bt_RootOffset ?b') key ?items'"
    using d c by simp_all
  have absent: "key \<notin> set (keys_of ?items')"
    unfolding key using s j by (rule removed_key_absent)
  show "fst (Delete fuel key b) = Inr ()" by (rule ok)
  show "fst (Get fuel key ?b')
         = (if bt_Length b = 1 then Inl ErrKeyNotFoundPort else Inl ErrKeyNotFoundText)"
    using Get_path_absent [OF c' p' absent fu] len by simp
  show "fst (Delete fuel key ?b')
         = (if bt_Length b = 1 then Inl ErrKeyNotFoundPort else Inl ErrKeyNotFoundText)"
    using Delete_path_absent [OF c' p' _ absent fu] len by simp
qed

subsection \<open>A root that is a leaf, node cache enabled\<close>

lemmas bt_steps =
  bt_bind_def bt_get_def bt_modify_def bt_return_def bt_fail_def readNode_def
  readNodeFromDisk_def new_node_def node_at_def isLeaf_def update_node_def writeNode_def
  writeNodeToDisk_def saveHeader_def cacheNode_def moveToFront_def Let_def

lemma search_path_0_any:
  assumes "search_path f ps t m 0 off key items"
  shows "search_path f ps t' m' 0 off key' items"
  using assms unfolding search_path_0 .

lemma root_cache_cases:
  assumes "root_cache b items" "0 < bt_cacheSize b"
  obtains (uncached) "bt_cache b (bt_RootOffset b) = None" "bt_cacheList b = []"
    | (cached) a off e where "bt_cache b (bt_RootOffset b) = Some a"
        "bt_heap b a = Some \<lparr>nd_items = items, nd_childrenOffsets = [], nd_offset = off,
                               nd_elem = e\<rparr>"
proof (cases "bt_cache b (bt_RootOffset b)")
  case None
  then show ?thesis using assms uncached by (simp add: root_cache_def)
next
  case (Some a)
  with assms obtain n where n: "bt_heap b a = Some n" "nd_items n = items"
      "nd_childrenOffsets n = []"
    by (auto simp: root_cache_def split: option.splits)
  then have "n = \<lparr>nd_items = items, nd_childrenOffsets = [], nd_offset = nd_offset n,
                   nd_elem = nd_elem n\<rparr>"
    by (cases n) simp
  then show ?thesis using cached Some n(1) by metis
qed

lemma Delete_leaf_cache_found:
  assumes c: "0 < bt_cacheSize b" and l: "bt_Length b \<noteq> 0"
    and p: "search_path (bt_file b) (bt_pageSize b) t m 0 (bt_RootOffset b) key items"
    and rc: "root_cache b items"
    and s: "sorted_wrt (<) (keys_of items)" and j: "j < length items"
  shows "fst (Delete (Suc fuel) (it_Key (items ! j)) b) = Inr ()
    \<and> bt_Length (snd (Delete (Suc fuel) (it_Key (items ! j)) b)) = bt_Length b - 1
    \<and> 0 < bt_cacheSize (snd (Delete (Suc fuel) (it_Key (items ! j)) b))
    \<and> search_path (bt_file (snd (Delete (Suc fuel) (it_Key (items ! j)) b)))
         (bt_pageSize (snd (Delete (Suc fuel) (it_Key (items ! j)) b))) t m 0
         (bt_RootOffset (snd (Delete (Suc fuel) (it_Key (items ! j)) b))) key
         (take j items @ drop (Suc j) items)
    \<and> root_cache (snd (Delete (Suc fuel) (it_Key (items ! j)) b))
         (take j items @ drop (Suc j) items)"
proof -
  let ?key = "it_Key (items ! j)"
  let ?items' = "take j items @ drop (Suc j) items"
  let ?root = "bt_RootOffset b"
  let ?ps = "bt_pageSize b"
  note l0 = search_path_leafD [OF p]
  from l0(3) obtain pg where page: "read_at (bt_file b) ?root (nat ?ps) = Some pg"
    and parse: "parse_node pg ?root
         = Some \<lparr>nd_items = items, nd_childrenOffsets = [], nd_offset = ?root, nd_elem = False\<rparr>"
    and root0: "0 \<le> ?root"
    by (rule node_pageD)
  have fi: "find_index ?key items 0 = j" using s j by (rule find_index_sorted)
  obtain f1 where w1: "write_at (bt_file b) ?root (pad_page ?ps (node_bytes (leaf ?items'))) = Some f1"
    using write_at_Some [OF root0] by blast
  have w1': "write_at (bt_file b) (path_leaf (bt_file b) ?ps 0 ?root key)
      (pad_page ?ps (node_bytes (leaf ?items'))) = Some f1"
    using w1 by simp
  note size' = leaf_page_rewritten(2) [OF p j w1]
  let ?hdr = "le64 (of_int ?root) @ le32 (of_int (bt_Length b - 1))"
  obtain f2 where w2: "write_at f1 0 (pad_page ?ps ?hdr) = Some f2"
    using write_at_Some [of 0] by blast
  have lr': "search_path f2 ?ps t m 0 ?root key ?items'"
    using search_path_header [OF search_path_rewritten [OF p j w1'] w2]
    by (rule search_path_0_any)
  from rc c show ?thesis
  proof (cases rule: root_cache_cases)
    case uncached
    have D: "Delete (Suc fuel) ?key b =
        (Inr (), b\<lparr>bt_nextAddr := Suc (bt_nextAddr b),
                   bt_heap := (bt_heap b)(bt_nextAddr b \<mapsto>
                      \<lparr>nd_items = ?items', nd_childrenOffsets = [], nd_offset = ?root,
                        nd_elem = True\<rparr>),
                   bt_cache := (bt_cache b)(?root \<mapsto> bt_nextAddr b),
                   bt_cacheList := [bt_nextAddr b], bt_Length := bt_Length b - 1,
                   bt_file := f2\<rparr>)"
      using c uncached l page parse fi j size' w1 w2
      by (simp add: Delete_def bt_steps)
    show ?thesis
      unfolding D using c lr' by (simp add: root_cache_def)
  next
    case (cached a off e)
    have D: "Delete (Suc fuel) ?key b =
        (Inr (), b\<lparr>bt_heap := (bt_heap b)(a \<mapsto>
                      \<lparr>nd_items = ?items', nd_childrenOffsets = [], nd_offset = ?root,
                        nd_elem = e\<rparr>),
                   bt_cache := (bt_cache b)(?root \<mapsto> a),
                   bt_cacheList :=
                     (if e then a # remove1 a (bt_cacheList b) else bt_cacheList b),
                   bt_Length := bt_Length b - 1, bt_file := f2\<rparr>)"
      using c cached l fi j size' w1 w2
      by (cases e) (simp_all add: Delete_def bt_steps)
    show ?thesis
      unfolding D using c lr' by (simp add: root_cache_def)
  qed
qed

lemma Get_leaf_cache_absent:
  assumes c: "0 < bt_cacheSize b"
    and p: "search_path (bt_file b) (bt_pageSize b) t m 0 (bt_RootOffset b) key items"
    and rc: "root_cache b items" and k: "key \<notin> set (keys_of items)"
  shows "fst (Get (Suc fuel) key b)
         = (if bt_Length b = 0 then Inl ErrKeyNotFoundPort else Inl ErrKeyNotFoundText)"
proof -
  from search_path_leafD(3) [OF p] obtain pg
    where page: "read_at (bt_file b) (bt_RootOffset b) (nat (bt_pageSize b)) = Some pg"
    and parse: "parse_node pg (bt_RootOffset b)
         = Some \<lparr>nd_items = items, nd_childrenOffsets = [], nd_offset = bt_RootOffset b,
                 nd_elem = False\<rparr>"
    by (rule node_pageD)
  note fi = find_index_absent [OF k]
  from rc c show ?thesis
  proof (cases rule: root_cache_cases)
    case uncached
    then show ?thesis
      using c page parse by (simp add: Get_def bt_steps fi)
  next
    case (cached a off e)
    then show ?thesis
      using c by (cases e) (simp_all add: Get_def bt_steps fi)
  qed
qed

lemma Delete_leaf_cache_absent:
  assumes c: "0 < bt_cacheSize b"
    and p: "search_path (bt_file b) (bt_pageSize b) t m 0 (bt_RootOffset b) key items"
    and rc: "root_cache b items" and k: "key \<notin> set (keys_of items)"
  shows "fst (Delete (Suc fuel) key b)
         = (if bt_Length b = 0 then Inl ErrKeyNotFoundPort else Inl ErrKeyNotFoundText)"
proof -
  from search_path_leafD(3) [OF p] obtain pg
    where page: "read_at (bt_file b) (bt_RootOffset b) (nat (bt_pageSize b)) = Some pg"
    and parse: "parse_node pg (bt_RootOffset b)
         = Some \<lparr>nd_items = items, nd_childrenOffsets = [], nd_offset = bt_RootOffset b,
                 nd_elem = False\<rparr>"
    by (rule node_pageD)
  note fi = find_index_absent [OF k]
  from rc c show ?thesis
  proof (cases rule: root_cache_cases)
    case uncached
    then show ?thesis
      using c page parse by (simp add: Delete_def bt_steps fi)
  next
    case (cached a off e)
    then show ?thesis
      using c by (cases e) (simp_all add: Delete_def bt_steps fi)
  qed
qed

lemma btree_delete_leaf_cache:
  assumes c: "0 < bt_cacheSize b" and l: "bt_Length b \<noteq> 0"
    and p: "search_path (bt_file b) (bt_pageSize b) t m 0 (bt_RootOffset b) key items"
    and rc: "root_cache b items"
    and s: "sorted_wrt (<) (keys_of items)" and k: "key \<in> set (keys_of items)"
    and f: "0 < fuel"
  shows "fst (Delete fuel key b) = Inr ()"
    and "fst (Get fuel key (snd (Delete fuel key b)))
         = (if bt_Length b = 1 then Inl ErrKeyNotFoundPort else Inl ErrKeyNotFoundText)"
    and "fst (Delete fuel key (snd (Delete fuel key b)))
         = (if bt_Length b = 1 then Inl ErrKeyNotFoundPort else Inl ErrKeyNotFoundText)"
proof -
  from k obtain j where j: "j < length items" and key: "key = it_Key (items ! j)"
    by (auto simp: keys_of_def in_set_conv_nth)
  from f obtain fuel' where fuel: "fuel = Suc fuel'"
    by (cases fuel) simp_all
  let ?b' = "snd (Delete fuel key b)"
  let ?items' = "take j items @ drop (Suc j) items"
  note d = Delete_leaf_cache_found [OF c l p rc s j, of fuel', folded key fuel]
  have ok: "fst (Delete fuel key b) = Inr ()" and len: "bt_Length ?b' = bt_Length b - 1"
    and c': "0 < bt_cacheSize ?b'"
    and p': "search_path (bt_file ?b') (bt_pageSize ?b') t m 0 (bt_RootOffset ?b') key ?items'"
    and rc': "root_cache ?b' ?items'"
    using d by blast+
  have absent: "key \<notin> set (keys_of ?items')"
    unfolding key using s j by (rule removed_key_absent)
  show "fst (Delete fuel key b) = Inr ()" by (rule ok)
  show "fst (Get fuel key ?b')
         = (if bt_Length b = 1 then Inl ErrKeyNotFoundPort else Inl ErrKeyNotFoundText)"
    using Get_leaf_cache_absent [OF c' p' rc' absent, of fuel', folded fuel] len by simp
  show "fst (Delete fuel key ?b')
         = (if bt_Length b = 1 then Inl ErrKeyNotFoundPort else Inl ErrKeyNotFoundText)"
    using Delete_leaf_cache_absent [OF c' p' rc' absent, of fuel', folded fuel] len by simp
qed

lemma btree_delete_found:
  assumes l: "bt_Length b \<noteq> 0"
    and p: "search_path (bt_file b) (bt_pageSize b) (bt_Degree b) (bt_Degree b + 1) d
              (bt_RootOffset b) key items"
    and tc: "tree_cache b d items"
    and s: "sorted_wrt (<) (keys_of items)" and k: "key \<in> set (keys_of items)"
    and fu: "d < fuel"
  shows "fst (Delete fuel key b) = Inr ()"
    and "fst (Get fuel key (snd (Delete fuel key b)))
         = (if bt_Length b = 1 then Inl ErrKeyNotFoundPort else Inl ErrKeyNotFoundText)"
    and "fst (Delete fuel key (snd (Delete fuel key b)))
         = (if bt_Length b = 1 then Inl ErrKeyNotFoundPort else Inl ErrKeyNotFoundText)"
proof -
  consider (disabled) "bt_cacheSize b \<le> 0"
    | (cache) "0 < bt_cacheSize b" "d = 0" "root_cache b items"
    using tc by (cases "d = 0"; cases "bt_cacheSize b \<le> 0") (simp_all add: tree_cache_def)
  then have "fst (Delete fuel key b) = Inr ()
    \<and> fst (Get fuel key (snd (Delete fuel key b)))
         = (if bt_Length b = 1 then Inl ErrKeyNotFoundPort else Inl ErrKeyNotFoundText)
    \<and> fst (Delete fuel key (snd (Delete fuel key b)))
         = (if bt_Length b = 1 then Inl ErrKeyNotFoundPort else Inl ErrKeyNotFoundText)"
  proof cases
    case disabled
    show ?thesis
      using btree_delete_path [OF disabled l p s k fu] by blast
  next
    case cache
    from p cache(2) have p0: "search_path (bt_file b) (bt_pageSize b) (bt_Degree b)
        (bt_Degree b + 1) 0 (bt_RootOffset b) key items"
      by simp
    from fu have f0: "0 < fuel" by simp
    show ?thesis
      using btree_delete_leaf_cache [OF cache(1) l p0 cache(3) s k f0] by blast
  qed
  then show "fst (Delete fuel key b) = Inr ()"
    and "fst (Get fuel key (snd (Delete fuel key b)))
         = (if bt_Length b = 1 then Inl ErrKeyNotFoundPort else Inl ErrKeyNotFoundText)"
    and "fst (Delete fuel key (snd (Delete fuel key b)))
         = (if bt_Length b = 1 then Inl ErrKeyNotFoundPort else Inl ErrKeyNotFoundText)"
    by blast+
qed

section \<open>Delete, then get and delete again\<close>

text \<open>A key that no SSTable indexes is found in no level.\<close>

lemma search_levels_absent:
  assumes "list_all (list_all (\<lambda>s. sst_index s key = None)) levels"
  shows "search_levels files levels key = None"
  using assms
proof (induction levels)
  case Nil
  then show ?case by simp
next
  case (Cons level levels)
  from Cons.prems have lv: "list_all (\<lambda>s. sst_index s key = None) level"
    and rest: "list_all (list_all (\<lambda>s. sst_index s key = None)) levels"
    by simp_all
  have "\<And>i. i < length level \<Longrightarrow> sst_index (level ! i) key = None"
    using lv by (simp add: list_all_length)
  then have g: "\<And>i. i < length level \<Longrightarrow> SSTable_Get files (level ! i) key = ('''', False)"
    by (simp add: SSTable_Get_def)
  show ?case
    using Cons.IH [OF rest] g by (auto simp: Let_def)
qed

lemma LSMTree_Get_after_delete:
  assumes "map_of (c_order (l_cache l)) key = None"
    and "list_all (list_all (\<lambda>s. sst_index s key = None)) (l_levels l)"
  shows "fst (LSMTree_Get key (snd (LSMTree_Delete key l))) = Inl ErrKeyNotFound"
  using assms(1) search_levels_absent [OF assms(2)]
  by (simp add: LSMTree_Get_def LSMTree_Delete_def Let_def MemTable_Get_def MemTable_Delete_def
      Cache_Get_def update_conv')

lemma bt_two_eq:
  "\<exists>heap. bt_two =
     \<lparr>bt_Degree = 2, bt_Length = 5, bt_RootOffset = 128,
      bt_file =
        [128, 0, 0, 0, 0, 0, 0, 0, 5, 0, 0, 0] @ replicate 52 0
        @ [1, 0, 0, 0, 0, 0, 0, 0, 1, 0, 97, 1, 0, 49] @ replicate 50 0
        @ [1, 0, 0, 0, 2, 0, 0, 0, 1, 0, 98, 1, 0, 50,
           64, 0, 0, 0, 0, 0, 0, 0, 192, 0, 0, 0, 0, 0, 0, 0] @ replicate 34 0
        @ [3, 0, 0, 0, 0, 0, 0, 0, 1, 0, 99, 1, 0, 51, 1, 0, 100, 1, 0, 52,
           1, 0, 101, 1, 0, 53] @ replicate 38 0,
      bt_pageSize = 64, bt_nextOffset = 256, bt_cache = Map.empty, bt_cacheList = [],
      bt_cacheSize = 0, bt_heap = heap, bt_nextAddr = 9\<rparr>"
  by (simp add: bt_two_def bt_four_def bt_full_def bt_eval del: Suc_numeral)

lemma bt_two_facts:
  "bt_Length bt_two \<noteq> 0" "bt_Length bt_two \<noteq> 1"
  "search_path (bt_file bt_two) (bt_pageSize bt_two) (bt_Degree bt_two) (bt_Degree bt_two + 1)
     1 (bt_RootOffset bt_two) ''d'' ex_leaf"
  "tree_cache bt_two 1 ex_leaf"
proof -
  from bt_two_eq obtain heap where e: "bt_two =
     \<lparr>bt_Degree = 2, bt_Length = 5, bt_RootOffset = 128,
      bt_file =
        [128, 0, 0, 0, 0, 0, 0, 0, 5, 0, 0, 0] @ replicate 52 0
        @ [1, 0, 0, 0, 0, 0, 0, 0, 1, 0, 97, 1, 0, 49] @ replicate 50 0
        @ [1, 0, 0, 0, 2, 0, 0, 0, 1, 0, 98, 1, 0, 50,
           64, 0, 0, 0, 0, 0, 0, 0, 192, 0, 0, 0, 0, 0, 0, 0] @ replicate 34 0
        @ [3, 0, 0, 0, 0, 0, 0, 0, 1, 0, 99, 1, 0, 51, 1, 0, 100, 1, 0, 52,
           1, 0, 101, 1, 0, 53] @ replicate 38 0,
      bt_pageSize = 64, bt_nextOffset = 256, bt_cache = Map.empty, bt_cacheList = [],
      bt_cacheSize = 0, bt_heap = heap, bt_nextAddr = 9\<rparr>"
    by blast
  show "bt_Length bt_two \<noteq> 0" "bt_Length bt_two \<noteq> 1" "tree_cache bt_two 1 ex_leaf"
    by (simp_all add: e tree_cache_def)
  show "search_path (bt_file bt_two) (bt_pageSize bt_two) (bt_Degree bt_two)
     (bt_Degree bt_two + 1) 1 (bt_RootOffset bt_two) ''d'' ex_leaf"
    unfolding e
    by (simp add: search_path.simps node_page_def ex_leaf_def bt_eval One_nat_def
        del: Suc_numeral)
qed

lemma bt_cached_facts:
  "bt_Length bt_cached = 1"
  "search_path (bt_file bt_cached) (bt_pageSize bt_cached) (bt_Degree bt_cached)
     (bt_Degree bt_cached + 1) 0 (bt_RootOffset bt_cached) ''a''
     [\<lparr>it_Key = ''a'', it_Value = ''1''\<rparr>]"
  "tree_cache bt_cached 0 [\<lparr>it_Key = ''a'', it_Value = ''1''\<rparr>]"
  "0 < bt_cacheSize bt_cached"
  by (simp_all add: bt_cached_def bt_eval search_path.simps node_page_def tree_cache_def
      root_cache_def del: Suc_numeral)

lemma ex_leaf_facts:
  "sorted_wrt (<) (keys_of ex_leaf)" "''d'' \<in> set (keys_of ex_leaf)"
  "sorted_wrt (<) (keys_of [\<lparr>it_Key = ''a'', it_Value = ''1''\<rparr>])"
  "''a'' \<in> set (keys_of [\<lparr>it_Key = ''a'', it_Value = ''1''\<rparr>])"
  by (simp_all add: ex_leaf_def keys_of_def)

lemma ex_two_facts:
  "map_of (c_order (l_cache ex_two)) ''b'' = None"
  "list_all (list_all (\<lambda>s. sst_index s ''b'' = None)) (l_levels ex_two)"
  "fst (LSMTree_Get ''b'' ex_two) = Inr ''2''"
  by (simp_all add: ex_two_def lsm_eval)




end
